theory Spec2Isabelle
  imports Main "HOL-Library.Sublist"
begin

section \<open>JavaScript strings\<close>

text \<open>
  The transcript code of \<^verbatim>\<open>AvatarView\<close> uses four string operations of JavaScript:
  \<^verbatim>\<open>trim\<close>, \<^verbatim>\<open>toLowerCase\<close>, \<^verbatim>\<open>substring(0, n)\<close> and \<^verbatim>\<open>startsWith\<close>. A string is the list of
  its code units; the model covers the code units below 256 (Latin-1), which is what
  \<^typ>\<open>char\<close> holds. \<^verbatim>\<open>length\<close> is the length of the list, \<^verbatim>\<open>+\<close> is \<open>@\<close>, and an empty
  string is the only falsy string.
\<close>

definition isWhiteSpace :: "char \<Rightarrow> bool" where
  \<comment> \<open>What \<^verbatim>\<open>trim\<close> strips: TAB, LF, VT, FF, CR, SPACE and NBSP.\<close>
  "isWhiteSpace c = (let n = (of_char c :: nat) in (9 \<le> n \<and> n \<le> 13) \<or> n = 32 \<or> n = 160)"

definition trim :: "string \<Rightarrow> string" where
  "trim s = rev (dropWhile isWhiteSpace (rev (dropWhile isWhiteSpace s)))"

definition lowerChar :: "char \<Rightarrow> char" where
  \<comment> \<open>\<^verbatim>\<open>toLowerCase\<close> on one code unit: A-Z and the Latin-1 capitals move up by 32,
      which sets the bit of value 32.\<close>
  "lowerChar c =
     (let n = (of_char c :: nat)
      in if (65 \<le> n \<and> n \<le> 90) \<or> (192 \<le> n \<and> n \<le> 222 \<and> n \<noteq> 215)
         then (case c of Char b0 b1 b2 b3 b4 b5 b6 b7 \<Rightarrow> Char b0 b1 b2 b3 b4 True b6 b7)
         else c)"

definition toLowerCase :: "string \<Rightarrow> string" where
  "toLowerCase s = map lowerChar s"

definition substring0 :: "nat \<Rightarrow> string \<Rightarrow> string" where
  \<comment> \<open>\<^verbatim>\<open>s.substring(0, n)\<close>\<close>
  "substring0 n s = take n s"

definition startsWith :: "string \<Rightarrow> string \<Rightarrow> bool" where
  \<comment> \<open>\<^verbatim>\<open>s.startsWith(p)\<close>\<close>
  "startsWith s p = (take (length p) s = p)"

text \<open>
  The specification's wording, "T begins with a case-insensitive prefix match against P",
  as a definition of its own: \<open>P\<close> is no longer than \<open>T\<close> and agrees with the start of \<open>T\<close>
  position by position up to case.
\<close>

definition ciStartsWith :: "string \<Rightarrow> string \<Rightarrow> bool" where
  "ciStartsWith t p =
     (length p \<le> length t \<and>
      list_all2 (\<lambda>a b. lowerChar a = lowerChar b) p (take (length p) t))"


section \<open>The transcript aggregator of AvatarView\<close>

text \<open>
  Source: the \<^verbatim>\<open>AvatarView\<close> component in its revision with transcript handling
  (\<^verbatim>\<open>src/frontend/src/components/Interview/ControlBar.tsx\<close>, lines 456 to 790 of the
  listing). The component keeps its state in React refs; the record below has one field
  per ref that the transcript and speech code reads or writes. Time is \<^verbatim>\<open>Date.now()\<close> in
  milliseconds. \<^verbatim>\<open>setTimeout\<close> adds an entry to the list of pending timeouts and returns
  its handle; \<^verbatim>\<open>clearTimeout\<close> removes the entry with that handle.
\<close>

datatype timeout_cb =
    ReleaseSend     \<comment> \<open>line 554: \<^verbatim>\<open>pttReleasedRef.current = false; sendTranscript()\<close>\<close>
  | SettledSend     \<comment> \<open>line 673: \<^verbatim>\<open>pttReleasedRef.current = false; sendTranscriptRef.current()\<close>\<close>
  | SilenceSend     \<comment> \<open>line 696: \<^verbatim>\<open>sendTranscriptRef.current()\<close>\<close>
  | RetrySend       \<comment> \<open>line 510: \<^verbatim>\<open>setTimeout(sendTranscript, 1000)\<close>\<close>
  | SpeakEndGrace   \<comment> \<open>line 722: \<^verbatim>\<open>isSpeakingRef.current = false\<close>\<close>

datatype timeout = Timeout (handle: nat) (fires_at: nat) (callback: timeout_cb)

record avatar =
  now :: nat
  nextHandle :: nat
  timeouts :: "timeout list"
  sessionRef :: bool                  \<comment> \<open>\<^verbatim>\<open>sessionRef.current\<close> is not null\<close>
  isReadyRef :: bool
  isSpeakingRef :: bool
  pendingSpeakRef :: "string list"
  currentTranscriptRef :: string
  lastSentTranscriptRef :: string
  sendTimeoutRef :: "nat option"
  lastTranscriptTimeRef :: nat
  prevPushToTalkRef :: bool
  pttReleasedRef :: bool
  pushToTalkEnabledRef :: bool
  onUserTranscriptRef :: bool         \<comment> \<open>the parent passed the \<^verbatim>\<open>onUserTranscript\<close> prop\<close>
  userTranscripts :: "string list"    \<comment> \<open>arguments of the calls of \<^verbatim>\<open>onUserTranscript\<close>, in order\<close>
  repeats :: "string list"            \<comment> \<open>arguments of the calls of \<^verbatim>\<open>session.repeat\<close>, in order\<close>

definition setTimeout :: "timeout_cb \<Rightarrow> nat \<Rightarrow> avatar \<Rightarrow> nat \<times> avatar" where
  "setTimeout cb delay s =
     (nextHandle s,
      s\<lparr>timeouts := timeouts s @ [Timeout (nextHandle s) (now s + delay) cb],
        nextHandle := nextHandle s + 1\<rparr>)"

definition clearTimeout :: "nat \<Rightarrow> avatar \<Rightarrow> avatar" where
  "clearTimeout h s = s\<lparr>timeouts := filter (\<lambda>x. handle x \<noteq> h) (timeouts s)\<rparr>"

definition clearSendTimeout :: "avatar \<Rightarrow> avatar" where
  \<comment> \<open>\<^verbatim>\<open>if (sendTimeoutRef.current) clearTimeout(sendTimeoutRef.current)\<close>\<close>
  "clearSendTimeout s = (case sendTimeoutRef s of None \<Rightarrow> s | Some h \<Rightarrow> clearTimeout h s)"

definition armSendTimeout :: "timeout_cb \<Rightarrow> nat \<Rightarrow> avatar \<Rightarrow> avatar" where
  \<comment> \<open>\<^verbatim>\<open>sendTimeoutRef.current = setTimeout(cb, delay)\<close>\<close>
  "armSendTimeout cb delay s =
     (case setTimeout cb delay s of (h, s') \<Rightarrow> s'\<lparr>sendTimeoutRef := Some h\<rparr>)"

subsection \<open>sendTranscript (lines 499 to 529)\<close>

definition sendTranscript :: "avatar \<Rightarrow> avatar" where
  "sendTranscript s =
     (let transcript = trim (currentTranscriptRef s)
      in if transcript = [] \<or> length transcript < 3 then s\<lparr>currentTranscriptRef := []\<rparr>
         else if isSpeakingRef s then armSendTimeout RetrySend 1000 s
         else if transcript = lastSentTranscriptRef s then s\<lparr>currentTranscriptRef := []\<rparr>
         else s\<lparr>lastSentTranscriptRef := transcript,
                currentTranscriptRef := [],
                userTranscripts :=
                  (if onUserTranscriptRef s then userTranscripts s @ [transcript]
                   else userTranscripts s)\<rparr>)"

subsection \<open>The push-to-talk effect (lines 537 to 574)\<close>

text \<open>
  The effect runs when the props \<^verbatim>\<open>isPushToTalkActive\<close> or \<^verbatim>\<open>pushToTalkEnabled\<close> change; the
  effect of lines 490 to 496 has copied \<^verbatim>\<open>pushToTalkEnabled\<close> into its ref just before.
\<close>

definition pushToTalkEffect :: "bool \<Rightarrow> bool \<Rightarrow> avatar \<Rightarrow> avatar" where
  "pushToTalkEffect isPushToTalkActive pushToTalkEnabled s0 =
     (let s = s0\<lparr>pushToTalkEnabledRef := pushToTalkEnabled\<rparr>
      in if \<not> pushToTalkEnabled then s\<lparr>prevPushToTalkRef := isPushToTalkActive\<rparr>
         else
           let s1 = (if prevPushToTalkRef s \<and> \<not> isPushToTalkActive
                     then armSendTimeout ReleaseSend 2000
                            (clearSendTimeout (s\<lparr>pttReleasedRef := True\<rparr>))
                     else s);
               s2 = (if \<not> prevPushToTalkRef s1 \<and> isPushToTalkActive
                     then (let r = s1\<lparr>currentTranscriptRef := [],
                                       lastSentTranscriptRef := [],
                                       pttReleasedRef := False\<rparr>
                           in case sendTimeoutRef r of
                                None \<Rightarrow> r
                              | Some h \<Rightarrow> (clearTimeout h r)\<lparr>sendTimeoutRef := None\<rparr>)
                     else s1)
           in s2\<lparr>prevPushToTalkRef := isPushToTalkActive\<rparr>)"

subsection \<open>The USER_TRANSCRIPTION handler (lines 634 to 700)\<close>

definition pttAccumulate :: "string \<Rightarrow> string \<Rightarrow> string" where
  \<comment> \<open>lines 652 to 664: the new value of the buffer \<open>current\<close> on the event text\<close>
  "pttAccumulate current text =
     (if current \<noteq> [] \<and>
         \<not> startsWith (toLowerCase text) (substring0 20 (toLowerCase current))
      then current @ '' '' @ text
      else if length text > length current then text else current)"

definition onUserTranscription :: "string \<Rightarrow> avatar \<Rightarrow> avatar" where
  "onUserTranscription text s =
     (if isSpeakingRef s then s
      else if text = [] \<or> length (trim text) < 2 then s
      else if pushToTalkEnabledRef s then
        (let s1 = s\<lparr>currentTranscriptRef := pttAccumulate (currentTranscriptRef s) text\<rparr>
         in if pttReleasedRef s1
            then armSendTimeout SettledSend 2000 (clearSendTimeout s1)
            else s1)
      else
        (let s1 = s\<lparr>currentTranscriptRef := text\<rparr>;
             s2 = (if now s1 - lastTranscriptTimeRef s1 > 5000
                   then s1\<lparr>lastSentTranscriptRef := []\<rparr> else s1);
             s3 = s2\<lparr>lastTranscriptTimeRef := now s2\<rparr>
         in armSendTimeout SilenceSend 3000 (clearSendTimeout s3)))"

subsection \<open>Speech events, the speak queue and timeouts\<close>

definition onAvatarSpeakStarted :: "avatar \<Rightarrow> avatar" where
  \<comment> \<open>lines 713 to 717\<close>
  "onAvatarSpeakStarted s = s\<lparr>isSpeakingRef := True\<rparr>"

definition onAvatarSpeakEnded :: "avatar \<Rightarrow> avatar" where
  \<comment> \<open>lines 719 to 727: the handle of this timeout is not kept\<close>
  "onAvatarSpeakEnded s = snd (setTimeout SpeakEndGrace 500 s)"

function drainPendingSpeak :: "avatar \<Rightarrow> avatar" where
  \<comment> \<open>lines 620 to 626: \<^verbatim>\<open>shift\<close> takes the first text, \<^verbatim>\<open>if (text)\<close> skips an empty one\<close>
  "drainPendingSpeak s =
     (case pendingSpeakRef s of
        [] \<Rightarrow> s
      | text # rest \<Rightarrow>
          drainPendingSpeak
            (s\<lparr>pendingSpeakRef := rest,
               repeats := (if text \<noteq> [] then repeats s @ [text] else repeats s)\<rparr>))"
  by pat_completeness auto
termination
  by (relation "measure (\<lambda>s. length (pendingSpeakRef s))") auto

declare drainPendingSpeak.simps [simp del]

definition onSessionStreamReady :: "avatar \<Rightarrow> avatar" where
  \<comment> \<open>lines 612 to 629\<close>
  "onSessionStreamReady s = drainPendingSpeak (s\<lparr>isReadyRef := True\<rparr>)"

definition speak :: "string \<Rightarrow> avatar \<Rightarrow> avatar" where
  \<comment> \<open>lines 763 to 776\<close>
  "speak text s =
     (if \<not> sessionRef s then s\<lparr>pendingSpeakRef := pendingSpeakRef s @ [text]\<rparr>
      else if \<not> isReadyRef s then s\<lparr>pendingSpeakRef := pendingSpeakRef s @ [text]\<rparr>
      else s\<lparr>repeats := repeats s @ [text]\<rparr>)"

definition runCallback :: "timeout_cb \<Rightarrow> avatar \<Rightarrow> avatar" where
  "runCallback cb s =
     (case cb of
        ReleaseSend \<Rightarrow> sendTranscript (s\<lparr>pttReleasedRef := False\<rparr>)
      | SettledSend \<Rightarrow> sendTranscript (s\<lparr>pttReleasedRef := False\<rparr>)
      | SilenceSend \<Rightarrow> sendTranscript s
      | RetrySend \<Rightarrow> sendTranscript s
      | SpeakEndGrace \<Rightarrow> s\<lparr>isSpeakingRef := False\<rparr>)"

subsection \<open>Timed runs\<close>

text \<open>
  The component is driven by the events of the avatar session, by prop changes, by calls
  of \<^verbatim>\<open>speak\<close> and by its own timeouts. A run is a list of events, each with the time at which
  it is handled. A timeout fires at the time it was set for, and no event is handled at a
  later time while it is still pending; a run that breaks this, or goes back in time, or
  fires a timeout that is not pending, is no run of the component (\<open>None\<close>).
\<close>

datatype event =
    USER_TRANSCRIPTION string
  | AVATAR_SPEAK_STARTED
  | AVATAR_SPEAK_ENDED
  | SESSION_STREAM_READY
  | SessionCreated                 \<comment> \<open>line 609: \<^verbatim>\<open>sessionRef.current = session\<close>\<close>
  | PropsChanged bool bool         \<comment> \<open>\<^verbatim>\<open>isPushToTalkActive\<close>, \<^verbatim>\<open>pushToTalkEnabled\<close>\<close>
  | Speak string
  | TimeoutFired nat

definition fireTimeout :: "nat \<Rightarrow> avatar \<Rightarrow> avatar option" where
  "fireTimeout h s =
     (case filter (\<lambda>x. handle x = h) (timeouts s) of
        [] \<Rightarrow> None
      | x # _ \<Rightarrow>
          if fires_at x = now s
          then Some (runCallback (callback x) (clearTimeout h s))
          else None)"

definition handleEvent :: "event \<Rightarrow> avatar \<Rightarrow> avatar option" where
  "handleEvent e s =
     (case e of
        USER_TRANSCRIPTION text \<Rightarrow> Some (onUserTranscription text s)
      | AVATAR_SPEAK_STARTED \<Rightarrow> Some (onAvatarSpeakStarted s)
      | AVATAR_SPEAK_ENDED \<Rightarrow> Some (onAvatarSpeakEnded s)
      | SESSION_STREAM_READY \<Rightarrow> Some (onSessionStreamReady s)
      | SessionCreated \<Rightarrow> Some (s\<lparr>sessionRef := True\<rparr>)
      | PropsChanged a en \<Rightarrow> Some (pushToTalkEffect a en s)
      | Speak text \<Rightarrow> Some (speak text s)
      | TimeoutFired h \<Rightarrow> fireTimeout h s)"

definition step :: "nat \<times> event \<Rightarrow> avatar \<Rightarrow> avatar option" where
  "step te s =
     (case te of (t, e) \<Rightarrow>
        if t < now s \<or> list_ex (\<lambda>x. fires_at x < t) (timeouts s) then None
        else handleEvent e (s\<lparr>now := t\<rparr>))"

fun run :: "(nat \<times> event) list \<Rightarrow> avatar \<Rightarrow> avatar option" where
  "run [] s = Some s"
| "run (te # tes) s = (case step te s of None \<Rightarrow> None | Some s' \<Rightarrow> run tes s')"

definition mounted :: "bool \<Rightarrow> avatar" where
  \<comment> \<open>the refs as lines 466 to 477 initialise them, at time 0, with the mode given\<close>
  "mounted ptt =
     \<lparr>now = 0, nextHandle = 1, timeouts = [], sessionRef = False, isReadyRef = False,
      isSpeakingRef = False, pendingSpeakRef = [], currentTranscriptRef = [],
      lastSentTranscriptRef = [], sendTimeoutRef = None, lastTranscriptTimeRef = 0,
      prevPushToTalkRef = False, pttReleasedRef = False, pushToTalkEnabledRef = ptt,
      onUserTranscriptRef = True, userTranscripts = [], repeats = []\<rparr>"


section \<open>The session channel: useWebSocket\<close>

text \<open>
  The sources hold two revisions of the hook \<^verbatim>\<open>useWebSocket\<close>.
  \<^item> \<open>Earlier\<close>: \<^verbatim>\<open>src/frontend/src/hooks/useWebSocket.ts\<close>. \<^verbatim>\<open>connect\<close> takes no argument and
    uses the \<^verbatim>\<open>sessionId\<close> prop; the hook stores no session identifier.
  \<^item> \<open>Later\<close>: the listing in \<^verbatim>\<open>src/frontend/src/app/layout.tsx\<close>, lines 65 to 150. \<^verbatim>\<open>connect\<close>
    takes an optional \<^verbatim>\<open>overrideSessionId\<close> and records the identifier it connects with in
    \<^verbatim>\<open>activeSessionIdRef\<close>; the reconnection timeout and \<^verbatim>\<open>disconnect\<close> use that ref. This is the
    revision \<^verbatim>\<open>useInterview\<close> calls as \<^verbatim>\<open>connect(data.sessionId)\<close> (\<^verbatim>\<open>src/unnamed/part_005\<close>,
    line 135).
  The two agree on \<^verbatim>\<open>send\<close>, \<^verbatim>\<open>onopen\<close> and \<^verbatim>\<open>onerror\<close>. Each function below takes the
  revision and follows the text of that revision; line numbers are given for both, the
  earlier revision first.

  A \<^verbatim>\<open>connect\<close> function closes over the props \<^verbatim>\<open>url\<close> and \<^verbatim>\<open>sessionId\<close> of the render that
  made it, and the handlers of a socket close over the \<^verbatim>\<open>connect\<close> that created the socket.
  A session identifier is a string or null; null and the empty string are falsy.
\<close>

datatype revision = Earlier | Later

type_synonym closure = "string \<times> string option"   \<comment> \<open>the props \<^verbatim>\<open>url\<close> and \<^verbatim>\<open>sessionId\<close>\<close>

datatype message_type = state_update | transcript_entry | evaluation_result | error | avatar_speak

record WebSocketMessage =
  msg_type :: message_type
  payload :: string

datatype readyState = CONNECTING | OPEN | CLOSING | CLOSED

record socket =
  wsUrl :: string
  readyState :: readyState
  madeBy :: closure                    \<comment> \<open>the \<^verbatim>\<open>connect\<close> whose handlers the socket carries\<close>
  frames :: "WebSocketMessage list"    \<comment> \<open>arguments of \<^verbatim>\<open>ws.send\<close>, in order\<close>

datatype notification = OnConnect | OnDisconnect | OnError

datatype reconnect = Reconnect (rhandle: nat) (rfires_at: nat) (rclosure: closure)

record channel =
  time_ms :: nat
  nextTimer :: nat
  reconnects :: "reconnect list"       \<comment> \<open>pending reconnection timeouts\<close>
  sockets :: "socket list"             \<comment> \<open>every \<^verbatim>\<open>WebSocket\<close> created so far\<close>
  wsRef :: "nat option"                \<comment> \<open>index of the socket in \<^verbatim>\<open>wsRef.current\<close>\<close>
  activeSessionIdRef :: "string option" \<comment> \<open>only the later revision has and writes it\<close>
  isConnected :: bool
  reconnectTimeoutRef :: "nat option"
  notifications :: "notification list" \<comment> \<open>calls of \<^verbatim>\<open>onConnect\<close>, \<^verbatim>\<open>onDisconnect\<close>, \<^verbatim>\<open>onError\<close>\<close>
  warnings :: "string list"            \<comment> \<open>\<^verbatim>\<open>console.warn\<close> and \<^verbatim>\<open>console.error\<close>\<close>

definition truthy :: "string option \<Rightarrow> bool" where
  "truthy x = (case x of None \<Rightarrow> False | Some v \<Rightarrow> v \<noteq> [])"

definition wsIsOpen :: "channel \<Rightarrow> bool" where
  \<comment> \<open>\<^verbatim>\<open>wsRef.current?.readyState === WebSocket.OPEN\<close>\<close>
  "wsIsOpen s =
     (case wsRef s of
        None \<Rightarrow> False
      | Some k \<Rightarrow> k < length (sockets s) \<and> readyState (sockets s ! k) = OPEN)"

definition connect :: "revision \<Rightarrow> string option \<Rightarrow> closure \<Rightarrow> channel \<Rightarrow> channel" where
  \<comment> \<open>lines 32 to 69, and 78 to 123; the handlers it installs are \<open>onopen\<close>, \<open>onclose\<close> and
      \<open>onerror\<close> below. The earlier revision has no parameter: an argument is ignored.\<close>
  "connect rv overrideSessionId cl s =
     (if wsIsOpen s then s
      else
        let sid = (case rv of
                     Earlier \<Rightarrow> snd cl
                   | Later \<Rightarrow> if truthy overrideSessionId then overrideSessionId else snd cl)
        in if \<not> truthy sid
           then (case rv of
                   Earlier \<Rightarrow> s
                 | Later \<Rightarrow>
                     s\<lparr>warnings := warnings s @ [''Cannot connect WebSocket: no session ID'']\<rparr>)
           else s\<lparr>activeSessionIdRef :=
                    (case rv of Earlier \<Rightarrow> activeSessionIdRef s | Later \<Rightarrow> sid),
                  sockets := sockets s @
                    [\<lparr>wsUrl = fst cl @ ''/'' @ the sid, readyState = CONNECTING,
                      madeBy = cl, frames = []\<rparr>],
                  wsRef := Some (length (sockets s))\<rparr>)"

definition onopen :: "nat \<Rightarrow> channel \<Rightarrow> channel" where
  \<comment> \<open>lines 39 to 42, and 93 to 96, on the socket that opened\<close>
  "onopen k s =
     s\<lparr>sockets := (sockets s)[k := (sockets s ! k)\<lparr>readyState := OPEN\<rparr>],
       isConnected := True,
       notifications := notifications s @ [OnConnect]\<rparr>"

definition onclose :: "nat \<Rightarrow> channel \<Rightarrow> channel" where
  \<comment> \<open>lines 54 to 61, and 108 to 115, on the socket that closed; the callback of the timeout
      is \<open>reconnectCallback\<close> below\<close>
  "onclose k s =
     s\<lparr>sockets := (sockets s)[k := (sockets s ! k)\<lparr>readyState := CLOSED\<rparr>],
       isConnected := False,
       notifications := notifications s @ [OnDisconnect],
       reconnects := reconnects s @
         [Reconnect (nextTimer s) (time_ms s + 3000) (madeBy (sockets s ! k))],
       nextTimer := nextTimer s + 1,
       reconnectTimeoutRef := Some (nextTimer s)\<rparr>"

definition onerror :: "nat \<Rightarrow> channel \<Rightarrow> channel" where
  \<comment> \<open>lines 63 to 66, and 117 to 120\<close>
  "onerror k s =
     s\<lparr>warnings := warnings s @ [''WebSocket error:''],
       notifications := notifications s @ [OnError]\<rparr>"

definition reconnectCallback :: "revision \<Rightarrow> closure \<Rightarrow> channel \<Rightarrow> channel" where
  \<comment> \<open>line 59: \<^verbatim>\<open>if (sessionId) connect()\<close>, and line 113:
      \<^verbatim>\<open>if (activeSessionIdRef.current) connect(activeSessionIdRef.current)\<close>\<close>
  "reconnectCallback rv cl s =
     (case rv of
        Earlier \<Rightarrow> if truthy (snd cl) then connect Earlier None cl s else s
      | Later \<Rightarrow>
          if truthy (activeSessionIdRef s) then connect Later (activeSessionIdRef s) cl s
          else s)"

definition closeSocket :: "nat \<Rightarrow> channel \<Rightarrow> channel" where
  \<comment> \<open>\<^verbatim>\<open>ws.close()\<close>: a socket that is connecting or open starts closing\<close>
  "closeSocket k s =
     (if k < length (sockets s) \<and> readyState (sockets s ! k) \<in> {CONNECTING, OPEN}
      then s\<lparr>sockets := (sockets s)[k := (sockets s ! k)\<lparr>readyState := CLOSING\<rparr>]\<rparr>
      else s)"

definition disconnect :: "revision \<Rightarrow> channel \<Rightarrow> channel" where
  \<comment> \<open>lines 71 to 78, and 125 to 133\<close>
  "disconnect rv s =
     (let s1 = (case reconnectTimeoutRef s of
                  None \<Rightarrow> s
                | Some h \<Rightarrow> s\<lparr>reconnects := filter (\<lambda>r. rhandle r \<noteq> h) (reconnects s)\<rparr>);
          s2 = (case rv of Earlier \<Rightarrow> s1 | Later \<Rightarrow> s1\<lparr>activeSessionIdRef := None\<rparr>);
          s3 = (case wsRef s2 of None \<Rightarrow> s2 | Some k \<Rightarrow> closeSocket k s2)
      in s3\<lparr>wsRef := None, isConnected := False\<rparr>)"

definition send :: "WebSocketMessage \<Rightarrow> channel \<Rightarrow> channel" where
  \<comment> \<open>lines 80 to 86, and 135 to 141\<close>
  "send message s =
     (if wsIsOpen s
      then (let k = the (wsRef s)
            in s\<lparr>sockets := (sockets s)[k := (sockets s ! k)\<lparr>frames := frames (sockets s ! k) @ [message]\<rparr>]\<rparr>)
      else s\<lparr>warnings := warnings s @ [''WebSocket not connected, message not sent'']\<rparr>)"

text \<open>
  Runs of the channel, timed as the runs of the avatar component are. The transport opens
  a socket that is connecting, closes a socket that is not yet closed, and reports errors;
  the application calls \<^verbatim>\<open>connect\<close> (with the closure of some render), \<^verbatim>\<open>disconnect\<close> and
  \<^verbatim>\<open>send\<close>. Incoming messages (\<^verbatim>\<open>onmessage\<close>) are handed to the caller
  and leave the state of the hook as it is; they are not events of the runs.
\<close>

datatype chan_event =
    Connect "string option" closure
  | Disconnect
  | Send WebSocketMessage
  | WsOpen nat
  | WsClose nat
  | WsError nat
  | ReconnectFired nat

definition fireReconnect :: "revision \<Rightarrow> nat \<Rightarrow> channel \<Rightarrow> channel option" where
  "fireReconnect rv h s =
     (case filter (\<lambda>r. rhandle r = h) (reconnects s) of
        [] \<Rightarrow> None
      | r # _ \<Rightarrow>
          if rfires_at r = time_ms s
          then Some (reconnectCallback rv (rclosure r)
                       (s\<lparr>reconnects := filter (\<lambda>r. rhandle r \<noteq> h) (reconnects s)\<rparr>))
          else None)"

definition handleChan :: "revision \<Rightarrow> chan_event \<Rightarrow> channel \<Rightarrow> channel option" where
  "handleChan rv e s =
     (case e of
        Connect ov cl \<Rightarrow> Some (connect rv ov cl s)
      | Disconnect \<Rightarrow> Some (disconnect rv s)
      | Send m \<Rightarrow> Some (send m s)
      | WsOpen k \<Rightarrow>
          if k < length (sockets s) \<and> readyState (sockets s ! k) = CONNECTING
          then Some (onopen k s) else None
      | WsClose k \<Rightarrow>
          if k < length (sockets s) \<and> readyState (sockets s ! k) \<noteq> CLOSED
          then Some (onclose k s) else None
      | WsError k \<Rightarrow> if k < length (sockets s) then Some (onerror k s) else None
      | ReconnectFired h \<Rightarrow> fireReconnect rv h s)"

definition stepChan :: "revision \<Rightarrow> nat \<times> chan_event \<Rightarrow> channel \<Rightarrow> channel option" where
  "stepChan rv te s =
     (case te of (t, e) \<Rightarrow>
        if t < time_ms s \<or> list_ex (\<lambda>r. rfires_at r < t) (reconnects s) then None
        else handleChan rv e (s\<lparr>time_ms := t\<rparr>))"

fun runChan :: "revision \<Rightarrow> (nat \<times> chan_event) list \<Rightarrow> channel \<Rightarrow> channel option" where
  "runChan rv [] s = Some s"
| "runChan rv (te # tes) s =
     (case stepChan rv te s of None \<Rightarrow> None | Some s' \<Rightarrow> runChan rv tes s')"

definition initialChannel :: channel where
  \<comment> \<open>lines 28 to 30, and 73 to 76\<close>
  "initialChannel =
     \<lparr>time_ms = 0, nextTimer = 1, reconnects = [], sockets = [], wsRef = None,
      activeSessionIdRef = None, isConnected = False, reconnectTimeoutRef = None,
      notifications = [], warnings = []\<rparr>"


section \<open>The client's interview state: interviewReducer\<close>

text \<open>Source: \<^verbatim>\<open>src/unnamed/part_005\<close>, lines 13 to 56, and \<^verbatim>\<open>types/interview.ts\<close>.\<close>

datatype InterviewPhase = IDLE | GREETING | TECHNICAL | EVALUATION | COMPLETED

datatype role = interviewer | candidate

record TranscriptEntry =
  entry_id :: string
  entry_role :: role
  entry_content :: string
  entry_timestamp :: nat
  entry_phase :: InterviewPhase

record Feedback =
  persuasion :: int
  technicalFit :: int
  communication :: int

record EvaluationResult =
  score :: int
  passed :: bool
  feedback :: Feedback
  summary :: string

record InterviewState =
  sessionId :: "string option"
  phase :: InterviewPhase
  transcript :: "TranscriptEntry list"
  isConnected_state :: bool
  isPushToTalkActive :: bool
  evaluationScore :: "int option"
  passed_state :: "bool option"

datatype InterviewAction =
    SET_SESSION string
  | SET_PHASE InterviewPhase
  | ADD_TRANSCRIPT TranscriptEntry
  | SET_CONNECTED bool
  | SET_PUSH_TO_TALK bool
  | SET_EVALUATION EvaluationResult
  | RESET

definition initialState :: InterviewState where
  "initialState =
     \<lparr>sessionId = None, phase = IDLE, transcript = [], isConnected_state = False,
      isPushToTalkActive = False, evaluationScore = None, passed_state = None\<rparr>"

fun interviewReducer :: "InterviewState \<Rightarrow> InterviewAction \<Rightarrow> InterviewState" where
  "interviewReducer state (SET_SESSION sid) = state\<lparr>sessionId := Some sid\<rparr>"
| "interviewReducer state (SET_PHASE p) = state\<lparr>phase := p\<rparr>"
| "interviewReducer state (ADD_TRANSCRIPT e) = state\<lparr>transcript := transcript state @ [e]\<rparr>"
| "interviewReducer state (SET_CONNECTED b) = state\<lparr>isConnected_state := b\<rparr>"
| "interviewReducer state (SET_PUSH_TO_TALK b) = state\<lparr>isPushToTalkActive := b\<rparr>"
| "interviewReducer state (SET_EVALUATION r) =
     state\<lparr>evaluationScore := Some (score r), passed_state := Some (passed r), phase := COMPLETED\<rparr>"
| "interviewReducer state RESET = initialState"

text \<open>
  The phases a session visits: the phase it starts in, then the phase stored by each action
  that writes the phase (\<open>SET_PHASE\<close>, \<open>SET_EVALUATION\<close>, \<open>RESET\<close>).
\<close>

fun writesPhase :: "InterviewAction \<Rightarrow> bool" where
  "writesPhase (SET_PHASE p) = True"
| "writesPhase (SET_EVALUATION r) = True"
| "writesPhase RESET = True"
| "writesPhase a = False"

fun visitedAfter :: "InterviewState \<Rightarrow> InterviewAction list \<Rightarrow> InterviewPhase list" where
  "visitedAfter state [] = []"
| "visitedAfter state (a # as) =
     (if writesPhase a
      then phase (interviewReducer state a) # visitedAfter (interviewReducer state a) as
      else visitedAfter (interviewReducer state a) as)"

definition visited :: "InterviewState \<Rightarrow> InterviewAction list \<Rightarrow> InterviewPhase list" where
  "visited state as = phase state # visitedAfter state as"

definition phaseOrder :: "InterviewPhase list" where
  "phaseOrder = [IDLE, GREETING, TECHNICAL, EVALUATION, COMPLETED]"

fun nextPhase :: "InterviewPhase \<Rightarrow> InterviewPhase option" where
  "nextPhase IDLE = Some GREETING"
| "nextPhase GREETING = Some TECHNICAL"
| "nextPhase TECHNICAL = Some EVALUATION"
| "nextPhase EVALUATION = Some COMPLETED"
| "nextPhase COMPLETED = None"

text \<open>
  An action that keeps the order, in a state: a \<open>SET_PHASE\<close> carries the successor of the
  current phase, a \<open>SET_EVALUATION\<close> arrives in phase \<open>EVALUATION\<close>, and there is no \<open>RESET\<close>.
\<close>

fun keepsOrder :: "InterviewState \<Rightarrow> InterviewAction \<Rightarrow> bool" where
  "keepsOrder state (SET_PHASE p) = (nextPhase (phase state) = Some p)"
| "keepsOrder state (SET_EVALUATION r) = (phase state = EVALUATION)"
| "keepsOrder state RESET = False"
| "keepsOrder state a = True"

fun allKeepOrder :: "InterviewState \<Rightarrow> InterviewAction list \<Rightarrow> bool" where
  "allKeepOrder state [] = True"
| "allKeepOrder state (a # as) =
     (keepsOrder state a \<and> allKeepOrder (interviewReducer state a) as)"

definition orderFrom :: "InterviewPhase \<Rightarrow> InterviewPhase list" where
  "orderFrom p = dropWhile (\<lambda>q. q \<noteq> p) phaseOrder"

definition demoResult :: EvaluationResult where
  "demoResult =
     \<lparr>score = 80, passed = True,
      feedback = \<lparr>persuasion = 75, technicalFit = 85, communication = 80\<rparr>,
      summary = ''ok''\<rparr>"


section \<open>Notions used in the statements\<close>

subsection \<open>The channel\<close>

text \<open>
  \<open>withoutWarnings\<close> forgets the console log, the one part of the state that no code reads.
  \<open>timersFresh\<close> and \<open>pendingIs\<close> say that timeout handles are not reused: every pending
  handle is below the next one to be issued, and the pending timeout with handle \<open>h\<close>, if
  there is one, is \<open>r\<close>. \<open>storedIdInv\<close>: the stored session identifier, when there is one, is
  the identifier with which the most recent socket was opened. \<open>demoOpen\<close> is a session
  that has connected with the identifier "abc", and \<open>demoClosed\<close> is that session after it
  lost its transport at 500 ms.

  The other runs are runs of the later revision, called the way \<^verbatim>\<open>useInterview\<close> calls it: the
  \<^verbatim>\<open>sessionId\<close> prop is still null in the closure and the identifier is passed to \<^verbatim>\<open>connect\<close>.
  \<open>demoTwo\<close>: \<^verbatim>\<open>connect\<close> is called for session "A" and, before that socket has opened, for
  session "B"; in \<open>demoTwoClosed\<close> the socket of "A" has closed at 10 ms, and in
  \<open>demoTwoResumed\<close> its reconnection timeout has fired at 3010 ms. \<open>demoEnded\<close>: after
  \<^verbatim>\<open>disconnect\<close> in \<open>demoOpen\<close>, the close event of the socket follows at 510 ms and the
  timeout set by that event fires at 3510 ms. \<open>staleTimer\<close>: the same up to the close event,
  then \<^verbatim>\<open>connect\<close> is called for a new session "B" at 3505 ms and the timeout fires 5 ms
  later. \<open>twoTimers\<close>: a session loses its transport at 500 ms, the caller connects again
  at 600 ms, that transport is lost at 700 ms, and \<^verbatim>\<open>disconnect\<close> is called at 800 ms while
  the timeouts of both closures are pending.
\<close>

definition withoutWarnings :: "channel \<Rightarrow> channel" where
  "withoutWarnings s = s\<lparr>warnings := []\<rparr>"



definition isConnectCall :: "chan_event \<Rightarrow> bool" where
  "isConnectCall e = (case e of Connect ov cl \<Rightarrow> True | _ \<Rightarrow> False)"


definition demoOpen :: "revision \<Rightarrow> channel" where
  "demoOpen rv =
     the (runChan rv [(0, Connect (Some ''abc'') (''ws://host/ws'', Some ''abc'')),
                      (10, WsOpen 0)] initialChannel)"

definition demoClosed :: "revision \<Rightarrow> channel" where
  "demoClosed rv = the (stepChan rv (500, WsClose 0) (demoOpen rv))"




definition demoEnded :: channel where
  "demoEnded =
     the (runChan Later [(510, WsClose 0), (3510, ReconnectFired 1)]
            (disconnect Later (demoOpen Later)))"

definition staleTimer :: "(nat \<times> chan_event) list" where
  "staleTimer =
     [(0, Connect (Some ''A'') (''ws://host/ws'', None)),
      (10, WsOpen 0),
      (500, Disconnect),
      (510, WsClose 0),
      (3505, Connect (Some ''B'') (''ws://host/ws'', None)),
      (3510, ReconnectFired 1)]"

definition twoTimers :: "(nat \<times> chan_event) list" where
  "twoTimers =
     [(0, Connect (Some ''A'') (''ws://host/ws'', None)),
      (10, WsOpen 0),
      (500, WsClose 0),
      (600, Connect (Some ''A'') (''ws://host/ws'', None)),
      (610, WsOpen 1),
      (700, WsClose 1),
      (800, Disconnect)]"

subsection \<open>Timeouts of the avatar component\<close>

text \<open>
  \<open>sendPending\<close>: a finalize countdown is pending, that is a timeout whose callback
  runs \<^verbatim>\<open>sendTranscript\<close>. \<open>timersInv\<close> holds in every state the component reaches: handles
  are not reused, and every pending finalize countdown is the one whose handle
  \<^verbatim>\<open>sendTimeoutRef\<close> holds. \<open>quiet\<close> events are those whose handlers touch neither the
  transcript refs nor the finalize countdown.
\<close>

definition sendPending :: "avatar \<Rightarrow> bool" where
  "sendPending s = list_ex (\<lambda>x. callback x \<noteq> SpeakEndGrace) (timeouts s)"

definition timersInv :: "avatar \<Rightarrow> bool" where
  "timersInv s =
     (distinct (map handle (timeouts s))
      \<and> list_all (\<lambda>x. handle x < nextHandle s) (timeouts s)
      \<and> list_all (\<lambda>x. callback x \<noteq> SpeakEndGrace \<longrightarrow> sendTimeoutRef s = Some (handle x))
           (timeouts s))"

definition quiet :: "event \<Rightarrow> bool" where
  "quiet e =
     (case e of USER_TRANSCRIPTION T \<Rightarrow> False | PropsChanged a en \<Rightarrow> False
      | TimeoutFired h \<Rightarrow> False | _ \<Rightarrow> True)"

subsection \<open>The finalize countdown\<close>

text \<open>
  \<open>ignored T s\<close>: the handler of \<^verbatim>\<open>USER_TRANSCRIPTION\<close> returns on its first or second test,
  so the event with text \<open>T\<close> is not accepted in state \<open>s\<close>. \<open>undisturbed es s\<close>: in the run
  \<open>es\<close> from \<open>s\<close> no recognition event is accepted and the props do not change, so that
  nothing but the countdown itself acts on the buffer and on the countdown.
  \<open>finalizeFiring e s\<close>: the event is the firing of a finalize countdown pending in \<open>s\<close>.
  \<open>firedSilent es s\<close>: at some point of the run a finalize countdown fires while
  \<^verbatim>\<open>isSpeakingRef\<close> is not set. \<open>deferred s s'\<close>: compared with \<open>s\<close>, nothing has been emitted
  in \<open>s'\<close>, buffer and marker are the same, and a finalize countdown is pending.
  \<open>finalized s s'\<close>: the normal finalize action has been applied to the buffer of \<open>s\<close>, once:
  the buffer is empty, the marker is the trimmed buffer of \<open>s\<close>, that text has been emitted
  unless it equals the marker of \<open>s\<close> (or no callback is supplied), and no finalize countdown
  is pending.

  \<open>demoAwaiting\<close> is a state in automatic mode: "hello world" recognised at 0, the avatar
  speaking from 1000. In \<open>deferralRun\<close> the countdown fires at 3000 and its successors at
  4000 and 5000, the speech ends at 4800, the grace timeout clears the flag at 5300, and
  the successor of 6000 fires with the flag clear. \<open>demoDeferred\<close> is the state after the
  firing of 5000, \<open>demoSent\<close> the state at the end.
\<close>

definition ignored :: "string \<Rightarrow> avatar \<Rightarrow> bool" where
  "ignored T s = (isSpeakingRef s \<or> T = [] \<or> length (trim T) < 2)"

definition bystander :: "event \<Rightarrow> avatar \<Rightarrow> bool" where
  "bystander e s =
     (case e of USER_TRANSCRIPTION T \<Rightarrow> ignored T s | PropsChanged a en \<Rightarrow> False | _ \<Rightarrow> True)"

fun undisturbed :: "(nat \<times> event) list \<Rightarrow> avatar \<Rightarrow> bool" where
  "undisturbed [] s = True"
| "undisturbed (te # es) s =
     (bystander (snd te) s
      \<and> (case step te s of None \<Rightarrow> True | Some s' \<Rightarrow> undisturbed es s'))"

definition finalizeFiring :: "event \<Rightarrow> avatar \<Rightarrow> bool" where
  "finalizeFiring e s =
     (case e of
        TimeoutFired h \<Rightarrow>
          list_ex (\<lambda>x. handle x = h \<and> callback x \<noteq> SpeakEndGrace) (timeouts s)
      | _ \<Rightarrow> False)"

fun firedSilent :: "(nat \<times> event) list \<Rightarrow> avatar \<Rightarrow> bool" where
  "firedSilent [] s = False"
| "firedSilent (te # es) s =
     ((finalizeFiring (snd te) s \<and> \<not> isSpeakingRef s)
      \<or> (case step te s of None \<Rightarrow> False | Some s' \<Rightarrow> firedSilent es s'))"

definition deferred :: "avatar \<Rightarrow> avatar \<Rightarrow> bool" where
  "deferred s s' =
     (sendPending s' \<and> userTranscripts s' = userTranscripts s
      \<and> currentTranscriptRef s' = currentTranscriptRef s
      \<and> lastSentTranscriptRef s' = lastSentTranscriptRef s)"

definition finalized :: "avatar \<Rightarrow> avatar \<Rightarrow> bool" where
  "finalized s s' =
     (\<not> sendPending s' \<and> currentTranscriptRef s' = []
      \<and> lastSentTranscriptRef s' = trim (currentTranscriptRef s)
      \<and> userTranscripts s' =
          (if trim (currentTranscriptRef s) = lastSentTranscriptRef s \<or> \<not> onUserTranscriptRef s
           then userTranscripts s
           else userTranscripts s @ [trim (currentTranscriptRef s)]))"

definition demoAwaiting :: avatar where
  "demoAwaiting = the (run [(0, USER_TRANSCRIPTION ''hello world''),
                            (1000, AVATAR_SPEAK_STARTED)] (mounted False))"

definition deferralRun :: "(nat \<times> event) list" where
  "deferralRun =
     [(3000, TimeoutFired 1), (4000, TimeoutFired 2), (4800, AVATAR_SPEAK_ENDED),
      (5000, TimeoutFired 3), (5300, TimeoutFired 4), (6000, TimeoutFired 5)]"

definition demoDeferred :: avatar where
  "demoDeferred = the (run (take 4 deferralRun) demoAwaiting)"

definition demoSent :: avatar where
  "demoSent = the (run deferralRun demoAwaiting)"

subsection \<open>The buffer in push-to-talk mode\<close>

text \<open>
  \<open>covers b b'\<close>: what the merge heuristic keeps of a buffer \<open>b\<close> in a later buffer \<open>b'\<close>. The
  later buffer is at least as long, and it starts, up to case, with the first 20 characters
  of \<open>b\<close>. \<open>sendPending\<close>: a finalize countdown is pending. \<open>pttInv\<close> holds of every state
  that push-to-talk mode reaches: every pending finalize countdown is the one whose handle
  \<^verbatim>\<open>sendTimeoutRef\<close> holds, and while a release is being waited for, the countdown is the one
  set at the release or by an event after it. \<open>keepsPtt\<close>: the event does not switch to automatic
  mode. \<open>keepsGate\<close>: the event is no change of the props, so that the gate is neither
  pressed nor released. \<open>episode b0 u0 s\<close>: since the state with buffer \<open>b0\<close> and emitted
  utterances \<open>u0\<close>, either nothing was emitted and the buffer covers \<open>b0\<close>; or the finalize
  has run, no countdown is pending, and what was emitted since is nothing or one text, the
  trimmed form of a buffer that covers \<open>b0\<close>. The \<open>demo\<close> states: the gate is held from 0 to
  1000, "I have five" arrives at 100 and "I have five years" at 1500, which cancels the
  countdown of the release and sets a new one; "of experience" arrives at 1800 and the
  countdown fires at 3800.
\<close>

definition covers :: "string \<Rightarrow> string \<Rightarrow> bool" where
  "covers b b' = (length b \<le> length b' \<and> ciStartsWith b' (take 20 b))"

definition pttInv :: "avatar \<Rightarrow> bool" where
  "pttInv s =
     (pushToTalkEnabledRef s
      \<and> list_all (\<lambda>x. callback x \<noteq> SpeakEndGrace \<longrightarrow> sendTimeoutRef s = Some (handle x))
           (timeouts s)
      \<and> (pttReleasedRef s \<longrightarrow>
            list_all (\<lambda>x. callback x \<noteq> SilenceSend \<and> callback x \<noteq> RetrySend) (timeouts s)))"

definition keepsPtt :: "event \<Rightarrow> bool" where
  "keepsPtt e = (case e of PropsChanged a en \<Rightarrow> en | _ \<Rightarrow> True)"

definition keepsGate :: "event \<Rightarrow> bool" where
  "keepsGate e = (case e of PropsChanged a en \<Rightarrow> False | _ \<Rightarrow> True)"

definition episode :: "string \<Rightarrow> string list \<Rightarrow> avatar \<Rightarrow> bool" where
  "episode b0 u0 s =
     ((userTranscripts s = u0 \<and> covers b0 (currentTranscriptRef s))
      \<or> (\<not> pttReleasedRef s \<and> \<not> sendPending s
          \<and> (userTranscripts s = u0
              \<or> (\<exists>b. covers b0 b \<and> userTranscripts s = u0 @ [trim b]))))"

definition demoCancelled :: avatar where
  "demoCancelled =
     the (run [(0, PropsChanged True True), (100, USER_TRANSCRIPTION ''I have five''),
               (1000, PropsChanged False True), (1500, USER_TRANSCRIPTION ''I have five years'')]
            (mounted True))"

definition demoFinalized :: avatar where
  "demoFinalized =
     the (run [(1800, USER_TRANSCRIPTION ''of experience''), (3800, TimeoutFired 3)]
            demoCancelled)"

subsection \<open>Capture episodes\<close>

text \<open>
  In push-to-talk mode a capture episode begins when the gate is pressed
  (\<^verbatim>\<open>isPushToTalkActive\<close> becomes true) and lasts until it is pressed again. \<open>noPress\<close>: the
  event is not a press and does not leave push-to-talk mode; a change of props can only be
  the release of the gate. \<open>oneTurn u0 s\<close>: since the press, when the emitted utterances
  were \<open>u0\<close>, either nothing has been emitted, and while the gate is held no release is
  waited for and no countdown is pending; or exactly one utterance has been emitted, the
  gate is up, and nothing is pending any more. \<open>markerInv\<close>: the marker
  \<^verbatim>\<open>lastSentTranscriptRef\<close> is empty or is the utterance emitted last.

  \<open>repeatedText\<close> is a run of automatic mode: "alpha one", "beta two" and "alpha one" again
  are recognised 4 seconds apart, each finalized 3 seconds after it was recognised.
  \<open>gateEpisode\<close> is one episode of push-to-talk mode after the press of \<open>demoPressed\<close>: an
  event while the gate is held, the release at 1000, a longer event at 1800 that rearms the
  countdown, the finalize at 3800, and one more event at 5000.
\<close>

definition noPress :: "event \<Rightarrow> bool" where
  "noPress e = (case e of PropsChanged a en \<Rightarrow> en \<and> \<not> a | _ \<Rightarrow> True)"

definition oneTurn :: "string list \<Rightarrow> avatar \<Rightarrow> bool" where
  "oneTurn u0 s =
     ((userTranscripts s = u0
       \<and> (prevPushToTalkRef s \<longrightarrow> \<not> pttReleasedRef s \<and> \<not> sendPending s))
      \<or> (\<not> prevPushToTalkRef s \<and> \<not> pttReleasedRef s \<and> \<not> sendPending s
          \<and> length (userTranscripts s) = Suc (length u0)
          \<and> take (length u0) (userTranscripts s) = u0))"

definition markerInv :: "avatar \<Rightarrow> bool" where
  "markerInv s =
     (onUserTranscriptRef s
      \<and> (lastSentTranscriptRef s = []
          \<or> (userTranscripts s \<noteq> [] \<and> last (userTranscripts s) = lastSentTranscriptRef s)))"

definition repeatedText :: "(nat \<times> event) list" where
  "repeatedText =
     [(0, USER_TRANSCRIPTION ''alpha one''), (3000, TimeoutFired 1),
      (4000, USER_TRANSCRIPTION ''beta two''), (7000, TimeoutFired 2),
      (8000, USER_TRANSCRIPTION ''alpha one''), (11000, TimeoutFired 3)]"

definition gateEpisode :: "(nat \<times> event) list" where
  "gateEpisode =
     [(100, USER_TRANSCRIPTION ''I have five years''), (1000, PropsChanged False True),
      (1800, USER_TRANSCRIPTION ''I have five years of experience''), (3800, TimeoutFired 2),
      (5000, USER_TRANSCRIPTION ''I have five years of experience'')]"

definition demoPressed :: avatar where
  "demoPressed = the (step (0, PropsChanged True True) (mounted True))"

definition demoEpisode :: avatar where
  "demoEpisode = the (run gateEpisode demoPressed)"


section \<open>The merge heuristic of push-to-talk mode\<close>

lemma startsWith_lower_iff:
  "startsWith (toLowerCase t) (substring0 n (toLowerCase b)) = ciStartsWith t (take n b)"
proof -
  let ?p = "take n b"
  have "startsWith (toLowerCase t) (substring0 n (toLowerCase b))
        = (map lowerChar (take (length ?p) t) = map lowerChar ?p)"
    by (simp add: startsWith_def toLowerCase_def substring0_def take_map)
  also have "\<dots> = list_all2 (\<lambda>a b. lowerChar a = lowerChar b) (take (length ?p) t) ?p"
    by (simp add: list.rel_eq [symmetric] list_all2_map1 list_all2_map2)
  also have "\<dots> = ciStartsWith t ?p"
    by (auto simp: ciStartsWith_def list_all2_conv_all_nth)
  finally show ?thesis .
qed

text \<open>
  C3. In push-to-talk mode, an accepted recognition event (the avatar is not speaking, the
  text has at least two characters after trimming) with text \<open>T\<close>, on a non-empty buffer
  \<open>B\<close>: if \<open>T\<close> does not start, up to case, with the first 20 characters of \<open>B\<close>, the new
  buffer is \<open>B\<close>, a space, \<open>T\<close>; otherwise the buffer becomes \<open>T\<close> if \<open>T\<close> is strictly longer
  than \<open>B\<close>, and stays \<open>B\<close> if not.
\<close>

theorem ptt_merge_heuristic:
  assumes "\<not> isSpeakingRef s" and "T \<noteq> []" and "2 \<le> length (trim T)"
    and "pushToTalkEnabledRef s" and "currentTranscriptRef s = B" and "B \<noteq> []"
  shows "currentTranscriptRef (onUserTranscription T s) =
           (if \<not> ciStartsWith T (take 20 B) then B @ '' '' @ T
            else if length B < length T then T else B)"
proof -
  have "currentTranscriptRef (onUserTranscription T s) = pttAccumulate B T"
    using assms
    by (simp add: onUserTranscription_def Let_def armSendTimeout_def setTimeout_def
        clearSendTimeout_def clearTimeout_def split: option.split)
  then show ?thesis
    using assms(6) by (simp add: pttAccumulate_def startsWith_lower_iff)
qed

theorem ptt_merge_heuristic_witness:
  "currentTranscriptRef
     (onUserTranscription ''of experience''
        ((mounted True)\<lparr>currentTranscriptRef := ''I have five years''\<rparr>))
     = ''I have five years of experience''
   \<and> currentTranscriptRef
     (onUserTranscription ''i have five years of experience''
        ((mounted True)\<lparr>currentTranscriptRef := ''I have five years''\<rparr>))
     = ''i have five years of experience''"
  using
    ptt_merge_heuristic [of "(mounted True)\<lparr>currentTranscriptRef := ''I have five years''\<rparr>"
      "''of experience''" "''I have five years''"]
    ptt_merge_heuristic [of "(mounted True)\<lparr>currentTranscriptRef := ''I have five years''\<rparr>"
      "''i have five years of experience''" "''I have five years''"]
  by (simp add: mounted_def trim_def isWhiteSpace_def ciStartsWith_def lowerChar_def)

section \<open>Phases on the client\<close>

lemma visitedAfter_in_order:
  "allKeepOrder st as \<Longrightarrow> prefix (phase st # visitedAfter st as) (orderFrom (phase st))"
proof (induction as arbitrary: st)
  case Nil
  then show ?case by (cases "phase st") (simp_all add: orderFrom_def phaseOrder_def)
next
  case (Cons a as)
  then have ko: "keepsOrder st a" and rest: "allKeepOrder (interviewReducer st a) as" by simp_all
  have ih: "prefix (phase (interviewReducer st a) # visitedAfter (interviewReducer st a) as)
              (orderFrom (phase (interviewReducer st a)))"
    using Cons.IH [OF rest] .
  show ?case
  proof (cases "writesPhase a")
    case False
    then have "phase (interviewReducer st a) = phase st" by (cases a) simp_all
    with ih False show ?thesis by simp
  next
    case True
    then have nx: "nextPhase (phase st) = Some (phase (interviewReducer st a))"
      using ko by (cases a) simp_all
    then have "orderFrom (phase st) = phase st # orderFrom (phase (interviewReducer st a))"
      by (cases "phase st") (auto simp: orderFrom_def phaseOrder_def)
    with ih True show ?thesis by simp
  qed
qed

text \<open>
  C2, as stated: the phases visited are always a prefix of IDLE, GREETING, TECHNICAL,
  EVALUATION, COMPLETED, with no skip, no repeat and no step back. The reducer does not
  hold this: \<open>SET_PHASE\<close> stores the phase it is given. A session that receives TECHNICAL
  first skips GREETING; one that receives GREETING twice repeats it; one that receives
  GREETING after TECHNICAL goes back.
\<close>

theorem phases_not_enforced:
  "\<not> prefix (visited initialState [SET_PHASE TECHNICAL]) phaseOrder
   \<and> \<not> prefix (visited initialState [SET_PHASE GREETING, SET_PHASE GREETING]) phaseOrder
   \<and> \<not> prefix (visited initialState
          [SET_PHASE GREETING, SET_PHASE TECHNICAL, SET_PHASE GREETING]) phaseOrder"
  by (simp add: visited_def initialState_def phaseOrder_def)

text \<open>
  C2, amended: when every \<open>SET_PHASE\<close> carries the successor of the current phase, every
  \<open>SET_EVALUATION\<close> arrives in phase EVALUATION and no \<open>RESET\<close> is dispatched, the phases
  visited from the initial state are a prefix of IDLE, GREETING, TECHNICAL, EVALUATION,
  COMPLETED.
\<close>

theorem phases_in_order:
  "allKeepOrder initialState as \<Longrightarrow> prefix (visited initialState as) phaseOrder"
  using visitedAfter_in_order [of initialState as]
  by (simp add: visited_def initialState_def orderFrom_def phaseOrder_def)

theorem phases_in_order_witness:
  "allKeepOrder initialState
     [SET_SESSION ''s1'', SET_PHASE GREETING, SET_CONNECTED True, SET_PHASE TECHNICAL,
      SET_PHASE EVALUATION, SET_EVALUATION demoResult]
   \<and> prefix (visited initialState
     [SET_SESSION ''s1'', SET_PHASE GREETING, SET_CONNECTED True, SET_PHASE TECHNICAL,
      SET_PHASE EVALUATION, SET_EVALUATION demoResult])
     phaseOrder"
  using phases_in_order [of "[SET_SESSION ''s1'', SET_PHASE GREETING, SET_CONNECTED True,
      SET_PHASE TECHNICAL, SET_PHASE EVALUATION,
      SET_EVALUATION demoResult]"]
  by (simp add: initialState_def)

section \<open>The speak queue\<close>

lemma drainPendingSpeak_eq:
  "drainPendingSpeak s =
     s\<lparr>pendingSpeakRef := [],
       repeats := repeats s @ filter (\<lambda>t. t \<noteq> []) (pendingSpeakRef s)\<rparr>"
proof (induction s rule: drainPendingSpeak.induct)
  case (1 s)
  show ?case
  proof (cases "pendingSpeakRef s")
    case Nil
    then show ?thesis by (subst drainPendingSpeak.simps) simp
  next
    case (Cons t rest)
    with "1" show ?thesis by (subst drainPendingSpeak.simps) simp
  qed
qed

lemma speak_all_queued:
  "\<not> (sessionRef s \<and> isReadyRef s) \<Longrightarrow>
     foldl (\<lambda>s t. speak t s) s ts = s\<lparr>pendingSpeakRef := pendingSpeakRef s @ ts\<rparr>"
proof (induction ts arbitrary: s)
  case Nil
  then show ?case by simp
next
  case (Cons t ts)
  let ?s' = "s\<lparr>pendingSpeakRef := pendingSpeakRef s @ [t]\<rparr>"
  have st: "speak t s = ?s'" using Cons.prems by (auto simp: speak_def)
  have "\<not> (sessionRef ?s' \<and> isReadyRef ?s')" using Cons.prems by simp
  from Cons.IH [OF this] st show ?case by simp
qed

text \<open>
  C10, as stated: every text given to \<^verbatim>\<open>speak\<close> before the session is ready is queued, and
  when the stream becomes ready all queued texts are spoken in order. The queue is kept
  as claimed, but the loop that empties it speaks a text only \<^verbatim>\<open>if (text)\<close>: an empty text
  is queued and then skipped.
\<close>

theorem empty_text_queued_not_spoken:
  "pendingSpeakRef (speak '''' (speak ''Hello'' (mounted True))) = [''Hello'', '''']
   \<and> repeats (onSessionStreamReady (speak '''' (speak ''Hello'' (mounted True)))) = [''Hello'']"
  by (simp add: speak_def mounted_def onSessionStreamReady_def drainPendingSpeak_eq)

text \<open>
  C10, amended: while there is no session or the stream is not ready, the texts given to
  \<^verbatim>\<open>speak\<close> are appended to the queue in the order of the calls, none dropped; when the
  stream becomes ready, the non-empty queued texts are spoken in queue order (first in,
  first out) and the queue is left empty.
\<close>

theorem speak_queue_fifo:
  assumes "\<not> (sessionRef s \<and> isReadyRef s)"
  shows "foldl (\<lambda>s t. speak t s) s ts = s\<lparr>pendingSpeakRef := pendingSpeakRef s @ ts\<rparr>
       \<and> onSessionStreamReady (foldl (\<lambda>s t. speak t s) s ts) =
           s\<lparr>isReadyRef := True, pendingSpeakRef := [],
             repeats := repeats s @ filter (\<lambda>t. t \<noteq> []) (pendingSpeakRef s @ ts)\<rparr>"
  using speak_all_queued [OF assms, of ts]
  by (simp add: onSessionStreamReady_def drainPendingSpeak_eq)

theorem speak_queue_fifo_witness:
  "onSessionStreamReady
     (foldl (\<lambda>s t. speak t s) (mounted True) [''Hello'', ''Tell me about yourself''])
   = (mounted True)\<lparr>isReadyRef := True, pendingSpeakRef := [],
        repeats := [''Hello'', ''Tell me about yourself'']\<rparr>"
proof -
  have h: "\<not> (sessionRef (mounted True) \<and> isReadyRef (mounted True))"
    by (simp add: mounted_def)
  have "repeats (mounted True) = []" and "pendingSpeakRef (mounted True) = []"
    by (simp_all add: mounted_def)
  with speak_queue_fifo [OF h, of "[''Hello'', ''Tell me about yourself'']", THEN conjunct2]
  show ?thesis by simp
qed

section \<open>The session channel\<close>

lemmas chan_eval = stepChan_def handleChan_def connect_def onopen_def onclose_def onerror_def
  disconnect_def send_def closeSocket_def fireReconnect_def reconnectCallback_def wsIsOpen_def
  truthy_def initialChannel_def Let_def

subsection \<open>Sending while not connected\<close>

lemma wsIsOpen_withoutWarnings [simp]: "wsIsOpen (withoutWarnings s) = wsIsOpen s"
  by (simp add: wsIsOpen_def withoutWarnings_def split: option.split)

lemma withoutWarnings_idem [simp]: "withoutWarnings (withoutWarnings s) = withoutWarnings s"
  by (simp add: withoutWarnings_def)

lemma connect_withoutWarnings:
  "withoutWarnings (connect rv ov cl (withoutWarnings s)) = withoutWarnings (connect rv ov cl s)"
  by (cases rv; cases "wsIsOpen s")
     (simp_all add: connect_def Let_def, simp_all add: withoutWarnings_def)

lemma reconnectCallback_withoutWarnings:
  "withoutWarnings (reconnectCallback rv cl (withoutWarnings s)) =
   withoutWarnings (reconnectCallback rv cl s)"
proof -
  have a: "activeSessionIdRef (withoutWarnings s) = activeSessionIdRef s"
    by (simp add: withoutWarnings_def)
  show ?thesis
    by (cases rv) (simp_all add: reconnectCallback_def a connect_withoutWarnings)
qed

lemma disconnect_withoutWarnings:
  "withoutWarnings (disconnect rv (withoutWarnings s)) = withoutWarnings (disconnect rv s)"
  by (cases rv)
     (auto simp: disconnect_def closeSocket_def withoutWarnings_def Let_def split: option.split)

lemma send_withoutWarnings:
  "withoutWarnings (send m (withoutWarnings s)) = withoutWarnings (send m s)"
  by (cases "wsIsOpen s") (simp_all add: send_def Let_def, simp_all add: withoutWarnings_def)

lemma fireReconnect_withoutWarnings:
  "map_option withoutWarnings (fireReconnect rv h (withoutWarnings s)) =
   map_option withoutWarnings (fireReconnect rv h s)"
proof -
  have a: "reconnects (withoutWarnings s) = reconnects s"
    "time_ms (withoutWarnings s) = time_ms s"
    "\<And>r. (withoutWarnings s)\<lparr>reconnects := r\<rparr> = withoutWarnings (s\<lparr>reconnects := r\<rparr>)"
    by (simp_all add: withoutWarnings_def)
  show ?thesis
    by (simp add: fireReconnect_def a reconnectCallback_withoutWarnings split: list.split)
qed

lemma handleChan_withoutWarnings:
  "map_option withoutWarnings (handleChan rv e (withoutWarnings s)) =
   map_option withoutWarnings (handleChan rv e s)"
proof (cases e)
  case (Connect ov cl)
  then show ?thesis by (simp add: handleChan_def connect_withoutWarnings)
next
  case Disconnect
  then show ?thesis by (simp add: handleChan_def disconnect_withoutWarnings)
next
  case (Send m)
  then show ?thesis by (simp add: handleChan_def send_withoutWarnings)
next
  case (WsOpen k)
  then show ?thesis by (simp add: handleChan_def onopen_def withoutWarnings_def)
next
  case (WsClose k)
  then show ?thesis by (simp add: handleChan_def onclose_def withoutWarnings_def)
next
  case (WsError k)
  then show ?thesis by (simp add: handleChan_def onerror_def withoutWarnings_def)
next
  case (ReconnectFired h)
  then show ?thesis by (simp add: handleChan_def fireReconnect_withoutWarnings)
qed

lemma stepChan_withoutWarnings:
  "map_option withoutWarnings (stepChan rv te (withoutWarnings s)) =
   map_option withoutWarnings (stepChan rv te s)"
proof (cases te)
  case (Pair t e)
  have "(withoutWarnings s)\<lparr>time_ms := t\<rparr> = withoutWarnings (s\<lparr>time_ms := t\<rparr>)"
    by (simp add: withoutWarnings_def)
  with Pair handleChan_withoutWarnings [of rv e "s\<lparr>time_ms := t\<rparr>"] show ?thesis
    by (simp add: stepChan_def) (simp add: withoutWarnings_def)
qed

lemma runChan_cong:
  "withoutWarnings s = withoutWarnings s' \<Longrightarrow>
     map_option withoutWarnings (runChan rv es s) = map_option withoutWarnings (runChan rv es s')"
proof (induction es arbitrary: s s')
  case Nil
  then show ?case by simp
next
  case (Cons te es)
  have eq: "map_option withoutWarnings (stepChan rv te s) = map_option withoutWarnings (stepChan rv te s')"
    using stepChan_withoutWarnings [of rv te s] stepChan_withoutWarnings [of rv te s'] Cons.prems
    by simp
  show ?case
  proof (cases "stepChan rv te s")
    case None
    with eq have "stepChan rv te s' = None" by simp
    with None show ?thesis by simp
  next
    case (Some s1)
    with eq obtain s1' where s1': "stepChan rv te s' = Some s1'"
      and w: "withoutWarnings s1 = withoutWarnings s1'" by (cases "stepChan rv te s'") auto
    from Cons.IH [OF w] Some s1' show ?thesis by simp
  qed
qed

text \<open>
  The channel is not connected, in the sense of the test in \<^verbatim>\<open>send\<close>, after \<^verbatim>\<open>disconnect\<close> and
  after the current socket has closed.
\<close>

lemma not_open_after_disconnect: "\<not> wsIsOpen (disconnect rv s)"
  by (simp add: wsIsOpen_def disconnect_def closeSocket_def Let_def split: option.split)

lemma not_open_after_close:
  "wsRef s = Some k \<Longrightarrow> k < length (sockets s) \<Longrightarrow> \<not> wsIsOpen (onclose k s)"
  by (simp add: wsIsOpen_def onclose_def)

text \<open>
  C6. A call of \<^verbatim>\<open>send\<close> while the channel is not connected (there is no current socket, or
  it is not open) changes nothing but the console log, to which it adds one warning. The
  message is not transmitted, and it is not kept anywhere: whatever happens afterwards,
  the channel behaves as if the call had not been made, the log apart.
\<close>

theorem send_while_disconnected:
  assumes "\<not> wsIsOpen s"
  shows "send m s = s\<lparr>warnings := warnings s @ [''WebSocket not connected, message not sent'']\<rparr>
       \<and> map_option withoutWarnings (runChan rv es (send m s))
         = map_option withoutWarnings (runChan rv es s)"
proof -
  have a: "send m s = s\<lparr>warnings := warnings s @ [''WebSocket not connected, message not sent'']\<rparr>"
    using assms by (simp add: send_def)
  then have "withoutWarnings (send m s) = withoutWarnings s"
    by (simp add: withoutWarnings_def)
  from runChan_cong [OF this] a show ?thesis by simp
qed

theorem send_while_disconnected_witness:
  "\<not> wsIsOpen (demoClosed Earlier)
   \<and> send \<lparr>msg_type = transcript_entry, payload = ''hi''\<rparr> (demoClosed Earlier)
       = (demoClosed Earlier)\<lparr>warnings := [''WebSocket not connected, message not sent'']\<rparr>
   \<and> map_option withoutWarnings
        (runChan Earlier [(3500, ReconnectFired 1), (3600, WsOpen 1)]
           (send \<lparr>msg_type = transcript_entry, payload = ''hi''\<rparr> (demoClosed Earlier)))
     = map_option withoutWarnings
        (runChan Earlier [(3500, ReconnectFired 1), (3600, WsOpen 1)] (demoClosed Earlier))"
proof -
  have h: "\<not> wsIsOpen (demoClosed Earlier)"
    by (simp add: demoClosed_def demoOpen_def chan_eval)
  have w: "warnings (demoClosed Earlier) = []"
    by (simp add: demoClosed_def demoOpen_def chan_eval)
  from send_while_disconnected [OF h, of "\<lparr>msg_type = transcript_entry, payload = ''hi''\<rparr>"
      Earlier "[(3500, ReconnectFired 1), (3600, WsOpen 1)]"] h w
  show ?thesis by (auto simp del: runChan.simps)
qed

subsection \<open>Reconnection after the transport closes\<close>

lemma connect_timers [simp]:
  "reconnects (connect rv ov cl s) = reconnects s" "nextTimer (connect rv ov cl s) = nextTimer s"
  by (cases rv; simp add: connect_def Let_def)+

lemma reconnectCallback_timers [simp]:
  "reconnects (reconnectCallback rv cl s) = reconnects s"
  "nextTimer (reconnectCallback rv cl s) = nextTimer s"
  by (cases rv; simp add: reconnectCallback_def)+

lemma disconnect_timers:
  "nextTimer (disconnect rv s) = nextTimer s"
  "reconnects (disconnect rv s) =
     (case reconnectTimeoutRef s of None \<Rightarrow> reconnects s
      | Some h \<Rightarrow> filter (\<lambda>r. rhandle r \<noteq> h) (reconnects s))"
  by (cases rv; simp add: disconnect_def closeSocket_def Let_def split: option.split)+

lemma send_timers [simp]:
  "reconnects (send m s) = reconnects s" "nextTimer (send m s) = nextTimer s"
  by (simp_all add: send_def Let_def)













text \<open>
  Both revisions mark the channel disconnected, call \<^verbatim>\<open>onDisconnect\<close> and set exactly one
  timeout, 3000 ms ahead.
\<close>

lemma close_schedules_one_reconnect:
  assumes "stepChan rv (t, WsClose k) s = Some s1"
  shows "isConnected s1 = False
       \<and> notifications s1 = notifications s @ [OnDisconnect]
       \<and> reconnects s1 =
           reconnects s @ [Reconnect (nextTimer s) (t + 3000) (madeBy (sockets s ! k))]"
proof -
  have "s1 = onclose k (s\<lparr>time_ms := t\<rparr>)"
    using assms by (simp add: stepChan_def handleChan_def split: if_splits)
  then show ?thesis by (simp add: onclose_def)
qed

subsection \<open>Disconnecting\<close>

lemma map_wsUrl_update:
  assumes "wsUrl y = wsUrl (xs ! k)"
  shows "map wsUrl (xs[k := y]) = map wsUrl xs"
proof (cases "k < length xs")
  case True
  then show ?thesis using assms by (simp add: map_update list_update_same_conv)
next
  case False
  then have "xs[k := y] = xs" by (simp add: list_update_beyond not_less)
  then show ?thesis by simp
qed

lemma handleChan_idle:
  assumes "activeSessionIdRef s = None" and "\<not> isConnectCall e" and "handleChan Later e s = Some s'"
  shows "activeSessionIdRef s' = None \<and> map wsUrl (sockets s') = map wsUrl (sockets s)"
proof (cases e)
  case (Connect ov cl)
  with assms(2) show ?thesis by (simp add: isConnectCall_def)
next
  case Disconnect
  with assms show ?thesis
    by (auto simp: handleChan_def disconnect_def closeSocket_def Let_def map_wsUrl_update
        split: option.splits)
next
  case (Send m)
  with assms show ?thesis
    by (auto simp: handleChan_def send_def Let_def map_wsUrl_update)
next
  case (WsOpen k)
  with assms show ?thesis
    by (auto simp: handleChan_def onopen_def map_wsUrl_update split: if_splits)
next
  case (WsClose k)
  with assms show ?thesis
    by (auto simp: handleChan_def onclose_def map_wsUrl_update split: if_splits)
next
  case (WsError k)
  with assms show ?thesis
    by (auto simp: handleChan_def onerror_def split: if_splits)
next
  case (ReconnectFired h)
  with assms show ?thesis
    by (auto simp: handleChan_def fireReconnect_def reconnectCallback_def truthy_def
        split: list.splits if_splits)
qed

lemma runChan_idle:
  "activeSessionIdRef s = None \<Longrightarrow> list_all (\<lambda>te. \<not> isConnectCall (snd te)) es \<Longrightarrow>
   runChan Later es s = Some s' \<Longrightarrow>
   activeSessionIdRef s' = None \<and> map wsUrl (sockets s') = map wsUrl (sockets s)"
proof (induction es arbitrary: s)
  case Nil
  then show ?case by simp
next
  case (Cons te es)
  then obtain s1 where s1: "stepChan Later te s = Some s1" and rest: "runChan Later es s1 = Some s'"
    by (auto split: option.splits)
  obtain t e where te: "te = (t, e)" by (cases te)
  have h: "handleChan Later e (s\<lparr>time_ms := t\<rparr>) = Some s1"
    using s1 te by (simp add: stepChan_def split: if_splits)
  have "activeSessionIdRef (s\<lparr>time_ms := t\<rparr>) = None" using Cons.prems(1) by simp
  moreover have "\<not> isConnectCall e" using Cons.prems(2) te by simp
  ultimately have one: "activeSessionIdRef s1 = None \<and>
      map wsUrl (sockets s1) = map wsUrl (sockets (s\<lparr>time_ms := t\<rparr>))"
    using h by (rule handleChan_idle)
  have "list_all (\<lambda>te. \<not> isConnectCall (snd te)) es" using Cons.prems(2) by simp
  from Cons.IH [OF _ this rest] one show ?case by simp
qed

text \<open>
  C9, as stated: every call of \<^verbatim>\<open>disconnect\<close> cancels any pending reconnection timeout, and
  no automatic reconnection can occur afterwards. \<^verbatim>\<open>disconnect\<close> cancels the one timeout
  whose handle \<^verbatim>\<open>reconnectTimeoutRef\<close> holds, the one set by the latest close event. In the
  run \<open>twoTimers\<close> two timeouts are pending when \<^verbatim>\<open>disconnect\<close> is called, and the older one
  stays pending. And the close event of the socket that \<^verbatim>\<open>disconnect\<close> closes arrives after
  the call and sets a timeout of its own: in the run \<open>staleTimer\<close> it fires 5 ms after
  \<^verbatim>\<open>connect\<close> has been called for a new session, finds the identifier of that session, and
  opens a second socket for it.
\<close>

theorem stale_timeout_survives_disconnect:
  "map_option (\<lambda>s. (reconnectTimeoutRef s, reconnects s))
       (runChan Later (take 6 twoTimers) initialChannel)
     = Some (Some 2, [Reconnect 1 3500 (''ws://host/ws'', None),
                      Reconnect 2 3700 (''ws://host/ws'', None)])
   \<and> map_option (\<lambda>s. (activeSessionIdRef s, reconnects s))
       (runChan Later twoTimers initialChannel)
     = Some (None, [Reconnect 1 3500 (''ws://host/ws'', None)])
   \<and> map_option (\<lambda>s. map (\<lambda>w. (wsUrl w, readyState w)) (sockets s))
       (runChan Later (take 5 staleTimer) initialChannel)
     = Some [(''ws://host/ws/A'', CLOSED), (''ws://host/ws/B'', CONNECTING)]
   \<and> map_option (\<lambda>s. map (\<lambda>w. (wsUrl w, readyState w)) (sockets s))
       (runChan Later staleTimer initialChannel)
     = Some [(''ws://host/ws/A'', CLOSED), (''ws://host/ws/B'', CONNECTING),
             (''ws://host/ws/B'', CONNECTING)]"
  by (simp add: twoTimers_def staleTimer_def chan_eval)

text \<open>
  C9, amended. A call of \<^verbatim>\<open>disconnect\<close> cancels the reconnection timeout whose handle the
  channel holds, clears the stored session identifier, closes the current socket (it is
  closing or closed afterwards) and drops it. From then on, as long as \<^verbatim>\<open>connect\<close> is not
  called again, no socket is ever created: a reconnection timeout that still fires, such
  as the one set by the close event of the socket just closed, finds no identifier.
\<close>

theorem disconnect_stops_reconnection:
  assumes "runChan Later es (disconnect Later s) = Some s'"
    and "list_all (\<lambda>te. \<not> isConnectCall (snd te)) es"
  shows "reconnects (disconnect Later s) =
           (case reconnectTimeoutRef s of
              None \<Rightarrow> reconnects s
            | Some h \<Rightarrow> filter (\<lambda>r. rhandle r \<noteq> h) (reconnects s))
       \<and> activeSessionIdRef (disconnect Later s) = None
       \<and> wsRef (disconnect Later s) = None
       \<and> isConnected (disconnect Later s) = False
       \<and> (\<forall>k. wsRef s = Some k \<and> k < length (sockets s) \<longrightarrow>
              readyState (sockets (disconnect Later s) ! k) \<in> {CLOSING, CLOSED})
       \<and> activeSessionIdRef s' = None
       \<and> map wsUrl (sockets s') = map wsUrl (sockets s)"
proof -
  have a: "activeSessionIdRef (disconnect Later s) = None" "wsRef (disconnect Later s) = None"
    "isConnected (disconnect Later s) = False"
    by (simp_all add: disconnect_def closeSocket_def Let_def split: option.split)
  have b: "\<forall>k. wsRef s = Some k \<and> k < length (sockets s) \<longrightarrow>
              readyState (sockets (disconnect Later s) ! k) \<in> {CLOSING, CLOSED}"
  proof (intro allI impI)
    fix k assume k: "wsRef s = Some k \<and> k < length (sockets s)"
    show "readyState (sockets (disconnect Later s) ! k) \<in> {CLOSING, CLOSED}"
      using k by (cases "readyState (sockets s ! k)")
        (auto simp: disconnect_def closeSocket_def Let_def split: option.split)
  qed
  have c: "map wsUrl (sockets (disconnect Later s)) = map wsUrl (sockets s)"
    by (auto simp: disconnect_def closeSocket_def Let_def map_wsUrl_update split: option.split)
  from runChan_idle [OF a(1) assms(2) assms(1)] c
  have d: "activeSessionIdRef s' = None \<and> map wsUrl (sockets s') = map wsUrl (sockets s)"
    by simp
  from a b d disconnect_timers(2) [of Later s] show ?thesis by simp
qed

theorem disconnect_stops_reconnection_witness:
  "runChan Later [(510, WsClose 0), (3510, ReconnectFired 1)] (disconnect Later (demoOpen Later))
     = Some demoEnded
   \<and> activeSessionIdRef (demoOpen Later) = Some ''abc''
   \<and> activeSessionIdRef (disconnect Later (demoOpen Later)) = None
   \<and> readyState (sockets (disconnect Later (demoOpen Later)) ! 0) = CLOSING
   \<and> activeSessionIdRef demoEnded = None
   \<and> map (\<lambda>w. (wsUrl w, readyState w)) (sockets demoEnded) = [(''ws://host/ws/abc'', CLOSED)]
   \<and> reconnects (demoClosed Later) = [Reconnect 1 3500 (''ws://host/ws'', Some ''abc'')]
   \<and> reconnects (disconnect Later (demoClosed Later)) = []"
proof -
  have r: "runChan Later [(510, WsClose 0), (3510, ReconnectFired 1)]
      (disconnect Later (demoOpen Later)) = Some demoEnded"
    by (simp add: demoEnded_def demoOpen_def chan_eval)
  have na: "list_all (\<lambda>te. \<not> isConnectCall (snd te)) [(510 :: nat, WsClose 0), (3510, ReconnectFired 1)]"
    by (simp add: isConnectCall_def)
  have f: "wsRef (demoOpen Later) = Some 0" "length (sockets (demoOpen Later)) = 1"
    "activeSessionIdRef (demoOpen Later) = Some ''abc''"
    "map wsUrl (sockets (demoOpen Later)) = [''ws://host/ws/abc'']"
    "readyState (sockets (disconnect Later (demoOpen Later)) ! 0) = CLOSING"
    "map readyState (sockets demoEnded) = [CLOSED]"
    by (simp_all add: demoEnded_def demoOpen_def chan_eval)
  have g: "reconnects (demoClosed Later) = [Reconnect 1 3500 (''ws://host/ws'', Some ''abc'')]"
    "reconnectTimeoutRef (demoClosed Later) = Some 1"
    by (simp_all add: demoClosed_def demoOpen_def chan_eval)
  from disconnect_stops_reconnection [OF r na] f
  have a: "activeSessionIdRef (disconnect Later (demoOpen Later)) = None"
    and b: "activeSessionIdRef demoEnded = None"
    and c: "map wsUrl (sockets demoEnded) = [''ws://host/ws/abc'']"
    by simp_all
  have "runChan Later [] (disconnect Later (demoClosed Later))
      = Some (disconnect Later (demoClosed Later))"
    by simp
  from disconnect_stops_reconnection [OF this] g
  have d: "reconnects (disconnect Later (demoClosed Later)) = []" by simp
  from c f(6) have "map (\<lambda>w. (wsUrl w, readyState w)) (sockets demoEnded)
      = [(''ws://host/ws/abc'', CLOSED)]"
    by (cases "sockets demoEnded") auto
  with r f a b g(1) d show ?thesis by simp
qed


section \<open>The transcript aggregator\<close>

lemmas avatar_eval = step_def handleEvent_def fireTimeout_def runCallback_def sendTranscript_def
  onUserTranscription_def pttAccumulate_def pushToTalkEffect_def onAvatarSpeakStarted_def
  onAvatarSpeakEnded_def armSendTimeout_def clearSendTimeout_def clearTimeout_def setTimeout_def
  speak_def mounted_def trim_def isWhiteSpace_def startsWith_def toLowerCase_def substring0_def
  lowerChar_def Let_def

subsection \<open>Suppression while the avatar speaks\<close>

text \<open>
  The handler returns at once when \<^verbatim>\<open>isSpeakingRef\<close> is set: the event changes nothing.
\<close>

lemma transcription_ignored_while_speaking:
  "isSpeakingRef s \<Longrightarrow> onUserTranscription T s = s"
  by (simp add: onUserTranscription_def)

text \<open>
  After a speech that ends with no earlier grace timeout still pending, an event can only
  be handled before the grace timeout is due, and then the flag is still set.
\<close>

lemma grace_period_after_speech:
  assumes "isSpeakingRef s"
    and "run [(t, AVATAR_SPEAK_ENDED), (t', USER_TRANSCRIPTION T)] s = Some s'"
  shows "t' \<le> t + 500 \<and> s' = (onAvatarSpeakEnded (s\<lparr>now := t\<rparr>))\<lparr>now := t'\<rparr>"
  using assms
  by (auto simp: step_def handleEvent_def onAvatarSpeakEnded_def setTimeout_def
      onUserTranscription_def split: if_splits)

text \<open>
  C1 says that no recognition event arriving while the avatar speaks, or within 500 ms
  after it stops, is turned into a finalized utterance. The flag is set by
  \<^verbatim>\<open>AVATAR_SPEAK_STARTED\<close> and cleared by a timeout that every \<^verbatim>\<open>AVATAR_SPEAK_ENDED\<close> sets for
  500 ms later; that timeout is never cancelled. When the avatar starts to speak again
  within the 500 ms, the timeout of the earlier end clears the flag during the new
  speech. First run: speech from 0 to 100 and again from 300 on; the timeout of 600 clears
  the flag, the event of 700 arrives while the avatar speaks and is finalized at 3700.
  Second run: the second speech ends at 550; the event of 700 arrives 150 ms after that
  end and is finalized as well.
\<close>

theorem stale_grace_timeout_reopens_capture:
  "map_option (\<lambda>s. (isSpeakingRef s, userTranscripts s))
     (run [(0, AVATAR_SPEAK_STARTED), (100, AVATAR_SPEAK_ENDED), (300, AVATAR_SPEAK_STARTED),
           (600, TimeoutFired 1), (700, USER_TRANSCRIPTION ''echo of the avatar''),
           (3700, TimeoutFired 2)] (mounted False))
     = Some (False, [''echo of the avatar''])
   \<and> map_option userTranscripts
     (run [(0, AVATAR_SPEAK_STARTED), (100, AVATAR_SPEAK_ENDED), (300, AVATAR_SPEAK_STARTED),
           (550, AVATAR_SPEAK_ENDED), (600, TimeoutFired 1),
           (700, USER_TRANSCRIPTION ''echo of the avatar''), (1050, TimeoutFired 2),
           (3700, TimeoutFired 3)] (mounted False))
     = Some [''echo of the avatar'']"
  by (simp add: avatar_eval)

subsection \<open>Timeouts and runs\<close>

text \<open>
  What a step of a run and the firing of a timeout amount to, and the invariant of the
  timeouts: it holds when the component is mounted and every handler keeps it.
\<close>

lemma fireTimeout_cases:
  assumes "fireTimeout h s = Some s'"
  obtains x where "x \<in> set (timeouts s)" and "handle x = h"
    and "s' = runCallback (callback x) (clearTimeout h s)"
proof -
  from assms obtain x xs where f: "filter (\<lambda>x. handle x = h) (timeouts s) = x # xs"
    and s': "s' = runCallback (callback x) (clearTimeout h s)"
    by (auto simp: fireTimeout_def split: list.splits if_splits)
  from f have "x \<in> set (filter (\<lambda>x. handle x = h) (timeouts s))" by simp
  then have "x \<in> set (timeouts s)" "handle x = h" by simp_all
  with s' that show ?thesis by blast
qed

lemma step_cases:
  assumes "step te s = Some s'"
  obtains t e where "te = (t, e)" and "handleEvent e (s\<lparr>now := t\<rparr>) = Some s'"
  using assms by (cases te) (auto simp: step_def split: if_splits)

lemma sendPending_now [simp]: "sendPending (s\<lparr>now := t\<rparr>) = sendPending s"
  by (simp add: sendPending_def)

lemma sendPending_unrelease [simp]:
  "sendPending (s\<lparr>pttReleasedRef := b\<rparr>) = sendPending s"
  by (simp add: sendPending_def)

lemma clearTimeout_fields [simp]:
  "pttReleasedRef (clearTimeout h s) = pttReleasedRef s"
  "userTranscripts (clearTimeout h s) = userTranscripts s"
  "currentTranscriptRef (clearTimeout h s) = currentTranscriptRef s"
  by (simp_all add: clearTimeout_def)

lemma timersInv_mounted: "timersInv (mounted m)"
  by (simp add: timersInv_def mounted_def)

lemma timersInv_now [simp]: "timersInv (s\<lparr>now := t\<rparr>) = timersInv s"
  by (simp add: timersInv_def)

lemma timersInv_clearSend:
  assumes "timersInv s"
  shows "timersInv (clearSendTimeout s)" and "\<not> sendPending (clearSendTimeout s)"
  using assms
  by (auto simp: timersInv_def clearSendTimeout_def clearTimeout_def sendPending_def
      list_all_iff list_ex_iff distinct_map_filter split: option.splits)

lemma timersInv_arm:
  assumes "timersInv s" and "\<not> sendPending s"
  shows "timersInv (armSendTimeout cb d s)"
  using assms
  by (auto simp: timersInv_def armSendTimeout_def setTimeout_def sendPending_def
      list_all_iff list_ex_iff)

lemma timersInv_sendTranscript:
  assumes "timersInv s" and "\<not> sendPending s"
  shows "timersInv (sendTranscript s)"
proof -
  have "timersInv (s\<lparr>currentTranscriptRef := []\<rparr>)"
    and "\<And>t u. timersInv (s\<lparr>lastSentTranscriptRef := t, currentTranscriptRef := [],
                           userTranscripts := u\<rparr>)"
    using assms(1) by (simp_all add: timersInv_def)
  with timersInv_arm [OF assms, of RetrySend 1000] show ?thesis
    by (simp add: sendTranscript_def Let_def)
qed

lemma timersInv_onUserTranscription: "timersInv s \<Longrightarrow> timersInv (onUserTranscription T s)"
proof -
  assume inv: "timersInv s"
  have a: "\<And>b. timersInv (s\<lparr>currentTranscriptRef := b\<rparr>)"
    using inv by (simp add: timersInv_def)
  have b: "\<And>b m l. timersInv (s\<lparr>currentTranscriptRef := b, lastSentTranscriptRef := m,
                                  lastTranscriptTimeRef := l\<rparr>)"
    "\<And>b l. timersInv (s\<lparr>currentTranscriptRef := b, lastTranscriptTimeRef := l\<rparr>)"
    using inv by (simp_all add: timersInv_def)
  show ?thesis
    using inv a b
    by (auto simp: onUserTranscription_def Let_def
        intro!: timersInv_arm timersInv_clearSend)
qed

lemma timersInv_pushToTalkEffect: "timersInv s \<Longrightarrow> timersInv (pushToTalkEffect a en s)"
  by (auto simp: timersInv_def pushToTalkEffect_def Let_def armSendTimeout_def setTimeout_def
      clearSendTimeout_def clearTimeout_def list_all_iff distinct_map_filter
      split: option.splits)

lemma timersInv_clearTimeout: "timersInv s \<Longrightarrow> timersInv (clearTimeout h s)"
  by (auto simp: timersInv_def clearTimeout_def list_all_iff distinct_map_filter)

lemma fired_clears:
  assumes "timersInv s" and "x \<in> set (timeouts s)" and "callback x \<noteq> SpeakEndGrace"
  shows "\<not> sendPending (clearTimeout (handle x) s)"
proof -
  have tr: "\<forall>y\<in>set (timeouts s). callback y \<noteq> SpeakEndGrace \<longrightarrow>
              sendTimeoutRef s = Some (handle y)"
    using assms(1) by (simp add: timersInv_def list_all_iff)
  with assms(2,3) have "sendTimeoutRef s = Some (handle x)" by blast
  with tr have "\<forall>y\<in>set (timeouts s). callback y \<noteq> SpeakEndGrace \<longrightarrow> handle y = handle x"
    by auto
  then show ?thesis
    by (auto simp: sendPending_def clearTimeout_def list_ex_iff)
qed

lemma timersInv_fireTimeout:
  assumes inv: "timersInv s" and f: "fireTimeout h s = Some s'"
  shows "timersInv s'"
proof -
  from f obtain x where x: "x \<in> set (timeouts s)" "handle x = h"
    and s': "s' = runCallback (callback x) (clearTimeout h s)"
    by (rule fireTimeout_cases)
  have c: "timersInv (clearTimeout h s)" using inv by (rule timersInv_clearTimeout)
  show ?thesis
  proof (cases "callback x = SpeakEndGrace")
    case True
    with c s' show ?thesis by (simp add: runCallback_def timersInv_def)
  next
    case False
    have np: "\<not> sendPending (clearTimeout h s)"
      using fired_clears [OF inv x(1) False] x(2) by simp
    have c': "timersInv ((clearTimeout h s)\<lparr>pttReleasedRef := False\<rparr>)"
      using c by (simp add: timersInv_def)
    have "timersInv (sendTranscript (clearTimeout h s))"
      and "timersInv (sendTranscript ((clearTimeout h s)\<lparr>pttReleasedRef := False\<rparr>))"
      using c c' np by (auto intro!: timersInv_sendTranscript)
    with False s' show ?thesis by (cases "callback x") (simp_all add: runCallback_def)
  qed
qed

lemma timersInv_handleEvent:
  assumes "timersInv s" and "handleEvent e s = Some s'"
  shows "timersInv s'"
proof (cases e)
  case (USER_TRANSCRIPTION T)
  with assms show ?thesis by (auto simp: handleEvent_def timersInv_onUserTranscription)
next
  case AVATAR_SPEAK_STARTED
  with assms show ?thesis by (auto simp: handleEvent_def onAvatarSpeakStarted_def timersInv_def)
next
  case AVATAR_SPEAK_ENDED
  with assms(2) have s': "s' = snd (setTimeout SpeakEndGrace 500 s)"
    by (simp add: handleEvent_def onAvatarSpeakEnded_def)
  have "\<forall>x\<in>set (timeouts s). handle x \<noteq> nextHandle s"
    using assms(1) by (auto simp: timersInv_def list_all_iff)
  with assms(1) show ?thesis
    by (auto simp: s' setTimeout_def timersInv_def list_all_iff less_Suc_eq)
next
  case SESSION_STREAM_READY
  with assms show ?thesis
    by (auto simp: handleEvent_def onSessionStreamReady_def drainPendingSpeak_eq timersInv_def)
next
  case SessionCreated
  with assms show ?thesis by (auto simp: handleEvent_def timersInv_def)
next
  case (PropsChanged a en)
  with assms show ?thesis by (auto simp: handleEvent_def timersInv_pushToTalkEffect)
next
  case (Speak T)
  with assms show ?thesis by (auto simp: handleEvent_def speak_def timersInv_def)
next
  case (TimeoutFired h)
  with assms show ?thesis by (auto simp: handleEvent_def intro: timersInv_fireTimeout)
qed

lemma timersInv_step: "timersInv s \<Longrightarrow> step te s = Some s' \<Longrightarrow> timersInv s'"
proof -
  assume inv: "timersInv s" and st: "step te s = Some s'"
  from st obtain t e where "te = (t, e)" and h: "handleEvent e (s\<lparr>now := t\<rparr>) = Some s'"
    by (rule step_cases)
  from inv have "timersInv (s\<lparr>now := t\<rparr>)" by simp
  then show ?thesis using h by (rule timersInv_handleEvent)
qed

lemma timersInv_run: "timersInv s \<Longrightarrow> run es s = Some s' \<Longrightarrow> timersInv s'"
proof (induction es arbitrary: s)
  case Nil
  then show ?case by simp
next
  case (Cons te es)
  then obtain s1 where s1: "step te s = Some s1" and rest: "run es s1 = Some s'"
    by (auto split: option.splits)
  from Cons.IH [OF timersInv_step [OF Cons.prems(1) s1] rest] show ?case .
qed

lemma quiet_frame:
  assumes "quiet e" and "handleEvent e s = Some s1"
  shows "userTranscripts s1 = userTranscripts s
       \<and> currentTranscriptRef s1 = currentTranscriptRef s
       \<and> lastSentTranscriptRef s1 = lastSentTranscriptRef s
       \<and> onUserTranscriptRef s1 = onUserTranscriptRef s
       \<and> pttReleasedRef s1 = pttReleasedRef s
       \<and> prevPushToTalkRef s1 = prevPushToTalkRef s
       \<and> sendPending s1 = sendPending s"
  using assms
  by (cases e)
     (auto simp: quiet_def handleEvent_def onAvatarSpeakStarted_def onAvatarSpeakEnded_def
        setTimeout_def onSessionStreamReady_def drainPendingSpeak_eq speak_def sendPending_def
      split: if_splits)

lemma onUserTranscription_marker:
  "userTranscripts (onUserTranscription T s) = userTranscripts s
   \<and> onUserTranscriptRef (onUserTranscription T s) = onUserTranscriptRef s
   \<and> (lastSentTranscriptRef (onUserTranscription T s) = lastSentTranscriptRef s
       \<or> lastSentTranscriptRef (onUserTranscription T s) = [])"
  by (simp add: onUserTranscription_def Let_def armSendTimeout_def setTimeout_def
      clearSendTimeout_def clearTimeout_def split: option.split)

lemma pushToTalkEffect_marker:
  "userTranscripts (pushToTalkEffect a en s) = userTranscripts s
   \<and> onUserTranscriptRef (pushToTalkEffect a en s) = onUserTranscriptRef s
   \<and> (lastSentTranscriptRef (pushToTalkEffect a en s) = lastSentTranscriptRef s
       \<or> lastSentTranscriptRef (pushToTalkEffect a en s) = [])"
  by (simp add: pushToTalkEffect_def Let_def armSendTimeout_def setTimeout_def
      clearSendTimeout_def clearTimeout_def split: option.split)

subsection \<open>Deferring the finalize while the avatar speaks\<close>

lemma bystander_now [simp]: "bystander e (s\<lparr>now := t\<rparr>) = bystander e s"
  by (simp add: bystander_def ignored_def split: event.split)

lemma finalizeFiring_now [simp]: "finalizeFiring e (s\<lparr>now := t\<rparr>) = finalizeFiring e s"
  by (simp add: finalizeFiring_def split: event.split)

lemma ignored_transcription: "ignored T s \<Longrightarrow> onUserTranscription T s = s"
  by (auto simp: ignored_def onUserTranscription_def)

lemma fired_is_finalize:
  assumes inv: "timersInv s" and x: "x \<in> set (timeouts s)"
    and ff: "finalizeFiring (TimeoutFired (handle x)) s"
  shows "callback x \<noteq> SpeakEndGrace"
proof -
  from ff obtain y where y: "y \<in> set (timeouts s)" "handle y = handle x"
      "callback y \<noteq> SpeakEndGrace"
    by (auto simp: finalizeFiring_def list_ex_iff)
  have "inj_on handle (set (timeouts s))"
    using inv by (simp add: timersInv_def distinct_map)
  with x y(1,2) have "y = x" by (auto dest: inj_onD)
  with y(3) show ?thesis by simp
qed

lemma grace_keeps_pending:
  assumes inv: "timersInv s" and x: "x \<in> set (timeouts s)" and g: "callback x = SpeakEndGrace"
    and p: "sendPending s"
  shows "sendPending (clearTimeout (handle x) s)"
proof -
  from p obtain y where y: "y \<in> set (timeouts s)" "callback y \<noteq> SpeakEndGrace"
    by (auto simp: sendPending_def list_ex_iff)
  have "inj_on handle (set (timeouts s))"
    using inv by (simp add: timersInv_def distinct_map)
  with x y g have "handle y \<noteq> handle x" by (auto dest: inj_onD)
  with y show ?thesis by (auto simp: sendPending_def clearTimeout_def list_ex_iff)
qed

lemma deferring_callback:
  assumes "cb \<noteq> SpeakEndGrace" and "3 \<le> length (trim (currentTranscriptRef s))"
    and "isSpeakingRef s"
  shows "runCallback cb s =
           armSendTimeout RetrySend 1000
             (s\<lparr>pttReleasedRef := (cb \<noteq> ReleaseSend \<and> cb \<noteq> SettledSend \<and> pttReleasedRef s)\<rparr>)"
proof -
  have ne: "trim (currentTranscriptRef s) \<noteq> []" using assms(2) by auto
  show ?thesis
    using assms ne
    by (cases cb) (simp_all add: runCallback_def sendTranscript_def Let_def)
qed

lemma finalizing_callback:
  assumes "cb \<noteq> SpeakEndGrace" and "3 \<le> length (trim (currentTranscriptRef s))"
    and "\<not> isSpeakingRef s"
  shows "timeouts (runCallback cb s) = timeouts s"
    and "currentTranscriptRef (runCallback cb s) = []"
    and "lastSentTranscriptRef (runCallback cb s) = trim (currentTranscriptRef s)"
    and "userTranscripts (runCallback cb s) =
          (if trim (currentTranscriptRef s) = lastSentTranscriptRef s \<or> \<not> onUserTranscriptRef s
           then userTranscripts s
           else userTranscripts s @ [trim (currentTranscriptRef s)])"
proof -
  have ne: "trim (currentTranscriptRef s) \<noteq> []" using assms(2) by auto
  show "timeouts (runCallback cb s) = timeouts s"
    and "currentTranscriptRef (runCallback cb s) = []"
    and "lastSentTranscriptRef (runCallback cb s) = trim (currentTranscriptRef s)"
    and "userTranscripts (runCallback cb s) =
          (if trim (currentTranscriptRef s) = lastSentTranscriptRef s \<or> \<not> onUserTranscriptRef s
           then userTranscripts s
           else userTranscripts s @ [trim (currentTranscriptRef s)])"
    using assms ne
    by (cases cb; simp add: runCallback_def sendTranscript_def Let_def)+
qed

lemma bystander_keeps:
  assumes inv: "timersInv s" and pend: "sendPending s"
    and long: "3 \<le> length (trim (currentTranscriptRef s))"
    and bs: "bystander e s" and nf: "\<not> (finalizeFiring e s \<and> \<not> isSpeakingRef s)"
    and h: "handleEvent e s = Some s1"
  shows "sendPending s1 \<and> userTranscripts s1 = userTranscripts s
       \<and> currentTranscriptRef s1 = currentTranscriptRef s
       \<and> lastSentTranscriptRef s1 = lastSentTranscriptRef s
       \<and> onUserTranscriptRef s1 = onUserTranscriptRef s"
proof (cases "quiet e")
  case True
  from quiet_frame [OF True h] pend show ?thesis by simp
next
  case False
  show ?thesis
  proof (cases e)
    case (USER_TRANSCRIPTION T)
    with bs have "ignored T s" by (simp add: bystander_def)
    then have "onUserTranscription T s = s" by (rule ignored_transcription)
    with USER_TRANSCRIPTION h pend show ?thesis by (simp add: handleEvent_def)
  next
    case (PropsChanged a en)
    with bs show ?thesis by (simp add: bystander_def)
  next
    case (TimeoutFired k)
    with h have f: "fireTimeout k s = Some s1" by (simp add: handleEvent_def)
    then obtain x where x: "x \<in> set (timeouts s)" "handle x = k"
      and s1: "s1 = runCallback (callback x) (clearTimeout k s)"
      by (rule fireTimeout_cases)
    show ?thesis
    proof (cases "callback x = SpeakEndGrace")
      case True
      have "sendPending (clearTimeout k s)"
        using grace_keeps_pending [OF inv x(1) True pend] x(2) by simp
      with True s1 show ?thesis by (simp add: runCallback_def sendPending_def clearTimeout_def)
    next
      case send: False
      with x have "finalizeFiring e s"
        using TimeoutFired by (auto simp: finalizeFiring_def list_ex_iff)
      with nf have sp: "isSpeakingRef s" by simp
      have "runCallback (callback x) (clearTimeout k s) =
           armSendTimeout RetrySend 1000
             ((clearTimeout k s)\<lparr>pttReleasedRef :=
                (callback x \<noteq> ReleaseSend \<and> callback x \<noteq> SettledSend
                 \<and> pttReleasedRef (clearTimeout k s))\<rparr>)"
        using send long sp by (intro deferring_callback) (simp_all add: clearTimeout_def)
      with s1 show ?thesis
        by (simp add: armSendTimeout_def setTimeout_def sendPending_def clearTimeout_def)
    qed
  qed (use False in \<open>simp_all add: quiet_def\<close>)
qed

lemma silent_firing_finalizes:
  assumes inv: "timersInv s" and long: "3 \<le> length (trim (currentTranscriptRef s))"
    and ff: "finalizeFiring e s" and ns: "\<not> isSpeakingRef s"
    and h: "handleEvent e s = Some s1"
  shows "finalized s s1"
proof -
  from ff obtain k where e: "e = TimeoutFired k"
    by (cases e) (simp_all add: finalizeFiring_def)
  with h have f: "fireTimeout k s = Some s1" by (simp add: handleEvent_def)
  then obtain x where x: "x \<in> set (timeouts s)" "handle x = k"
    and s1: "s1 = runCallback (callback x) (clearTimeout k s)"
    by (rule fireTimeout_cases)
  have send: "callback x \<noteq> SpeakEndGrace"
    using fired_is_finalize [OF inv x(1)] ff e x(2) by simp
  have np: "\<not> sendPending (clearTimeout k s)"
    using fired_clears [OF inv x(1) send] x(2) by simp
  have c: "3 \<le> length (trim (currentTranscriptRef (clearTimeout k s)))"
    "\<not> isSpeakingRef (clearTimeout k s)"
    using long ns by (simp_all add: clearTimeout_def)
  note fin = finalizing_callback [OF send c]
  have "sendPending s1 = sendPending (clearTimeout k s)"
    using fin(1) s1 by (simp add: sendPending_def)
  with np fin(2,3,4) s1 show ?thesis
    by (simp add: finalized_def clearTimeout_def)
qed

lemma idle_event:
  assumes np: "\<not> sendPending s" and bs: "bystander e s" and h: "handleEvent e s = Some s1"
  shows "\<not> sendPending s1 \<and> userTranscripts s1 = userTranscripts s
       \<and> currentTranscriptRef s1 = currentTranscriptRef s
       \<and> lastSentTranscriptRef s1 = lastSentTranscriptRef s"
proof (cases "quiet e")
  case True
  from quiet_frame [OF True h] np show ?thesis by simp
next
  case False
  show ?thesis
  proof (cases e)
    case (USER_TRANSCRIPTION T)
    with bs have "ignored T s" by (simp add: bystander_def)
    then have "onUserTranscription T s = s" by (rule ignored_transcription)
    with USER_TRANSCRIPTION h np show ?thesis by (simp add: handleEvent_def)
  next
    case (PropsChanged a en)
    with bs show ?thesis by (simp add: bystander_def)
  next
    case (TimeoutFired k)
    with h have f: "fireTimeout k s = Some s1" by (simp add: handleEvent_def)
    then obtain x where x: "x \<in> set (timeouts s)" "handle x = k"
      and s1: "s1 = runCallback (callback x) (clearTimeout k s)"
      by (rule fireTimeout_cases)
    from np x(1) have "callback x = SpeakEndGrace"
      by (auto simp: sendPending_def list_ex_iff)
    with s1 np show ?thesis
      by (auto simp: runCallback_def sendPending_def clearTimeout_def list_ex_iff)
  qed (use False in \<open>simp_all add: quiet_def\<close>)
qed

lemma idle_run:
  "\<not> sendPending s \<Longrightarrow> undisturbed es s \<Longrightarrow> run es s = Some s' \<Longrightarrow>
     \<not> sendPending s' \<and> userTranscripts s' = userTranscripts s
     \<and> currentTranscriptRef s' = currentTranscriptRef s
     \<and> lastSentTranscriptRef s' = lastSentTranscriptRef s"
proof (induction es arbitrary: s)
  case Nil
  then show ?case by simp
next
  case (Cons te es)
  then obtain s1 where s1: "step te s = Some s1" and rest: "run es s1 = Some s'"
    by (auto split: option.splits)
  from s1 obtain t e where te: "te = (t, e)" and h: "handleEvent e (s\<lparr>now := t\<rparr>) = Some s1"
    by (rule step_cases)
  have bs: "bystander e s" and u1: "undisturbed es s1"
    using Cons.prems(2) s1 te by simp_all
  have one: "\<not> sendPending s1 \<and> userTranscripts s1 = userTranscripts (s\<lparr>now := t\<rparr>)
       \<and> currentTranscriptRef s1 = currentTranscriptRef (s\<lparr>now := t\<rparr>)
       \<and> lastSentTranscriptRef s1 = lastSentTranscriptRef (s\<lparr>now := t\<rparr>)"
    using Cons.prems(1) bs h by (intro idle_event [of "s\<lparr>now := t\<rparr>" e s1]) simp_all
  from Cons.IH [OF _ u1 rest] one show ?case by simp
qed

lemma deferral_run:
  "timersInv s \<Longrightarrow> sendPending s \<Longrightarrow> 3 \<le> length (trim (currentTranscriptRef s)) \<Longrightarrow>
   undisturbed es s \<Longrightarrow> run es s = Some s' \<Longrightarrow>
     (if firedSilent es s then finalized s s' else deferred s s')"
proof (induction es arbitrary: s)
  case Nil
  then show ?case by (simp add: deferred_def)
next
  case (Cons te es)
  then obtain s1 where s1: "step te s = Some s1" and rest: "run es s1 = Some s'"
    by (auto split: option.splits)
  from s1 obtain t e where te: "te = (t, e)" and h: "handleEvent e (s\<lparr>now := t\<rparr>) = Some s1"
    by (rule step_cases)
  have bs: "bystander e s" and u1: "undisturbed es s1"
    using Cons.prems(4) s1 te by simp_all
  have i1: "timersInv s1" using Cons.prems(1) s1 by (rule timersInv_step)
  let ?st = "s\<lparr>now := t\<rparr>"
  have st: "timersInv ?st" "sendPending ?st" "3 \<le> length (trim (currentTranscriptRef ?st))"
    "bystander e ?st"
    using Cons.prems(1,2,3) bs by simp_all
  show ?case
  proof (cases "finalizeFiring e s \<and> \<not> isSpeakingRef s")
    case True
    then have "finalized ?st s1"
      using st h by (intro silent_firing_finalizes [of ?st e s1]) simp_all
    then have f1: "finalized s s1" by (simp add: finalized_def)
    then have "\<not> sendPending s1" by (simp add: finalized_def)
    from idle_run [OF this u1 rest] f1 have "finalized s s'" by (simp add: finalized_def)
    with True te show ?thesis by simp
  next
    case False
    then have nf: "\<not> (finalizeFiring e ?st \<and> \<not> isSpeakingRef ?st)" by simp
    from bystander_keeps [OF st nf h]
    have k: "sendPending s1" "userTranscripts s1 = userTranscripts s"
      "currentTranscriptRef s1 = currentTranscriptRef s"
      "lastSentTranscriptRef s1 = lastSentTranscriptRef s"
      "onUserTranscriptRef s1 = onUserTranscriptRef s"
      by simp_all
    have l1: "3 \<le> length (trim (currentTranscriptRef s1))" using k(3) Cons.prems(3) by simp
    from Cons.IH [OF i1 k(1) l1 u1 rest]
    have ih: "if firedSilent es s1 then finalized s1 s' else deferred s1 s'" .
    have eq: "finalized s1 s' = finalized s s'" "deferred s1 s' = deferred s s'"
      using k by (simp_all add: finalized_def deferred_def)
    have fs: "firedSilent (te # es) s = firedSilent es s1"
      using False te s1 by auto
    show ?thesis
    proof (cases "firedSilent es s1")
      case True
      with ih eq fs show ?thesis by (simp del: firedSilent.simps)
    next
      case False
      with ih eq fs show ?thesis by (simp del: firedSilent.simps)
    qed
  qed
qed

lemma speaking_emits_nothing:
  assumes "isSpeakingRef s" and "handleEvent e s = Some s2"
  shows "userTranscripts s2 = userTranscripts s"
proof (cases "quiet e")
  case True
  from quiet_frame [OF True assms(2)] show ?thesis by simp
next
  case False
  show ?thesis
  proof (cases e)
    case (USER_TRANSCRIPTION T)
    with assms show ?thesis by (simp add: handleEvent_def onUserTranscription_def)
  next
    case (PropsChanged a en)
    with assms(2) pushToTalkEffect_marker [of a en s] show ?thesis
      by (auto simp: handleEvent_def)
  next
    case (TimeoutFired h)
    with assms(2) have f: "fireTimeout h s = Some s2" by (simp add: handleEvent_def)
    then obtain x where s2: "s2 = runCallback (callback x) (clearTimeout h s)"
      by (rule fireTimeout_cases)
    have "\<And>c. isSpeakingRef c \<Longrightarrow> userTranscripts (sendTranscript c) = userTranscripts c"
      by (simp add: sendTranscript_def Let_def armSendTimeout_def setTimeout_def)
    from this [of "clearTimeout h s"] this [of "(clearTimeout h s)\<lparr>pttReleasedRef := False\<rparr>"]
      assms(1)
    show ?thesis
      unfolding s2 by (cases "callback x") (simp_all add: runCallback_def clearTimeout_def)
  qed (use False in \<open>simp_all add: quiet_def\<close>)
qed

text \<open>
  C8, as stated: a finalize that falls due while the avatar is speaking is deferred by
  rescheduling the same countdown. The countdown is 3 seconds in automatic mode and 2
  seconds after the release of the gate. What \<^verbatim>\<open>sendTranscript\<close> schedules when it finds the
  flag set is another timeout: \<^verbatim>\<open>setTimeout(sendTranscript, 1000)\<close>, due one second later,
  kept in the slot of the countdown (\<^verbatim>\<open>sendTimeoutRef\<close>). In both runs the countdown falls
  due at 3000 while the avatar speaks, and the timeout that replaces it is due at 4000.
\<close>

theorem retry_after_one_second:
  "map_option timeouts
     (run [(0, USER_TRANSCRIPTION ''hello world''), (1000, AVATAR_SPEAK_STARTED)] (mounted False))
     = Some [Timeout 1 3000 SilenceSend]
   \<and> map_option (\<lambda>s. (timeouts s, sendTimeoutRef s, currentTranscriptRef s, userTranscripts s))
     (run [(0, USER_TRANSCRIPTION ''hello world''), (1000, AVATAR_SPEAK_STARTED),
           (3000, TimeoutFired 1)] (mounted False))
     = Some ([Timeout 2 4000 RetrySend], Some 2, ''hello world'', [])
   \<and> map_option timeouts
     (run [(0, PropsChanged True True), (100, USER_TRANSCRIPTION ''hello world''),
           (1000, PropsChanged False True), (1500, AVATAR_SPEAK_STARTED)] (mounted True))
     = Some [Timeout 1 3000 ReleaseSend]
   \<and> map_option (\<lambda>s. (timeouts s, sendTimeoutRef s, currentTranscriptRef s, userTranscripts s))
     (run [(0, PropsChanged True True), (100, USER_TRANSCRIPTION ''hello world''),
           (1000, PropsChanged False True), (1500, AVATAR_SPEAK_STARTED),
           (3000, TimeoutFired 1)] (mounted True))
     = Some ([Timeout 2 4000 RetrySend], Some 2, ''hello world'', [])"
  by (simp add: avatar_eval)

text \<open>
  C8, amended. Take any state \<open>s\<close> the component reaches in which a finalize countdown is
  pending and the buffer passes the length test of the finalize action (at least 3
  characters after trimming), and any run from \<open>s\<close> in which no new recognition event is
  accepted and the props do not change. If every firing of the countdown in that run
  found \<^verbatim>\<open>isSpeakingRef\<close> set, the finalize has not been performed: nothing has been emitted,
  buffer and marker are as in \<open>s\<close>, and a countdown is pending again. Otherwise the normal
  finalize action has been performed, once, on the buffer of \<open>s\<close>. The single firing: when
  the countdown with handle \<open>h\<close> fires at time \<open>t\<close> and the flag is set, it is replaced by a
  timeout that runs \<^verbatim>\<open>sendTranscript\<close> again at \<open>t + 1000\<close> and whose handle
  \<^verbatim>\<open>sendTimeoutRef\<close> holds, and the other timeouts stay; when the flag is not set, the firing
  performs the normal finalize action. And in any state whatever, no event emits an
  utterance while the flag is set.
\<close>

theorem finalize_deferred_until_silent:
  assumes reach: "run es0 (mounted m) = Some s"
    and pend: "sendPending s"
    and long: "3 \<le> length (trim (currentTranscriptRef s))"
    and und: "undisturbed es s"
    and later: "run es s = Some s'"
  shows "(if firedSilent es s then finalized s s' else deferred s s')
       \<and> (finalizeFiring (TimeoutFired h) s \<and> step (t, TimeoutFired h) s = Some s1 \<longrightarrow>
            (if isSpeakingRef s
             then timeouts s1 = filter (\<lambda>x. handle x \<noteq> h) (timeouts s)
                                  @ [Timeout (nextHandle s) (t + 1000) RetrySend]
                  \<and> sendTimeoutRef s1 = Some (nextHandle s)
                  \<and> isSpeakingRef s1 \<and> deferred s s1
             else finalized s s1))
       \<and> (isSpeakingRef s \<and> step (t, e) s = Some s2 \<longrightarrow>
            userTranscripts s2 = userTranscripts s)"
proof -
  have inv: "timersInv s" using timersInv_mounted reach by (rule timersInv_run)
  have a: "if firedSilent es s then finalized s s' else deferred s s'"
    using inv pend long und later by (rule deferral_run)
  have b: "finalizeFiring (TimeoutFired h) s \<and> step (t, TimeoutFired h) s = Some s1 \<longrightarrow>
            (if isSpeakingRef s
             then timeouts s1 = filter (\<lambda>x. handle x \<noteq> h) (timeouts s)
                                  @ [Timeout (nextHandle s) (t + 1000) RetrySend]
                  \<and> sendTimeoutRef s1 = Some (nextHandle s)
                  \<and> isSpeakingRef s1 \<and> deferred s s1
             else finalized s s1)"
  proof (intro impI)
    assume asm: "finalizeFiring (TimeoutFired h) s \<and> step (t, TimeoutFired h) s = Some s1"
    let ?st = "s\<lparr>now := t\<rparr>"
    from asm have hd: "handleEvent (TimeoutFired h) ?st = Some s1"
      by (simp add: step_def split: if_splits)
    then have f: "fireTimeout h ?st = Some s1" by (simp add: handleEvent_def)
    then obtain x where x: "x \<in> set (timeouts ?st)" "handle x = h"
      and s1: "s1 = runCallback (callback x) (clearTimeout h ?st)"
      by (rule fireTimeout_cases)
    have send: "callback x \<noteq> SpeakEndGrace"
      using fired_is_finalize [of s x] inv x asm by simp
    show "if isSpeakingRef s
          then timeouts s1 = filter (\<lambda>x. handle x \<noteq> h) (timeouts s)
                               @ [Timeout (nextHandle s) (t + 1000) RetrySend]
               \<and> sendTimeoutRef s1 = Some (nextHandle s)
               \<and> isSpeakingRef s1 \<and> deferred s s1
          else finalized s s1"
    proof (cases "isSpeakingRef s")
      case True
      have "runCallback (callback x) (clearTimeout h ?st) =
             armSendTimeout RetrySend 1000
               ((clearTimeout h ?st)\<lparr>pttReleasedRef :=
                  (callback x \<noteq> ReleaseSend \<and> callback x \<noteq> SettledSend
                   \<and> pttReleasedRef (clearTimeout h ?st))\<rparr>)"
        using send long True by (intro deferring_callback) (simp_all add: clearTimeout_def)
      with s1 True show ?thesis
        by (simp add: armSendTimeout_def setTimeout_def clearTimeout_def deferred_def
            sendPending_def)
    next
      case False
      have "finalized ?st s1"
        using inv long asm False hd
        by (intro silent_firing_finalizes [of ?st "TimeoutFired h" s1]) simp_all
      with False show ?thesis by (simp add: finalized_def)
    qed
  qed
  have c: "isSpeakingRef s \<and> step (t, e) s = Some s2 \<longrightarrow>
            userTranscripts s2 = userTranscripts s"
  proof
    assume asm: "isSpeakingRef s \<and> step (t, e) s = Some s2"
    then have "handleEvent e (s\<lparr>now := t\<rparr>) = Some s2"
      by (simp add: step_def split: if_splits)
    with asm speaking_emits_nothing [of "s\<lparr>now := t\<rparr>" e s2]
    show "userTranscripts s2 = userTranscripts s" by simp
  qed
  from a b c show ?thesis by simp
qed

theorem finalize_deferred_until_silent_witness:
  "run [(0, USER_TRANSCRIPTION ''hello world''), (1000, AVATAR_SPEAK_STARTED)] (mounted False)
     = Some demoAwaiting
   \<and> timeouts demoAwaiting = [Timeout 1 3000 SilenceSend]
   \<and> undisturbed deferralRun demoAwaiting
   \<and> run (take 4 deferralRun) demoAwaiting = Some demoDeferred
   \<and> \<not> firedSilent (take 4 deferralRun) demoAwaiting
   \<and> timeouts demoDeferred = [Timeout 4 5300 SpeakEndGrace, Timeout 5 6000 RetrySend]
   \<and> userTranscripts demoDeferred = []
   \<and> currentTranscriptRef demoDeferred = ''hello world''
   \<and> run deferralRun demoAwaiting = Some demoSent
   \<and> firedSilent deferralRun demoAwaiting
   \<and> timeouts demoSent = []
   \<and> currentTranscriptRef demoSent = []
   \<and> lastSentTranscriptRef demoSent = ''hello world''
   \<and> userTranscripts demoSent = [''hello world'']
   \<and> map_option (\<lambda>s. (timeouts s, userTranscripts s)) (step (3000, TimeoutFired 1) demoAwaiting)
       = Some ([Timeout 2 4000 RetrySend], [])"
proof -
  have reach: "run [(0, USER_TRANSCRIPTION ''hello world''), (1000, AVATAR_SPEAK_STARTED)]
      (mounted False) = Some demoAwaiting"
    by (simp add: demoAwaiting_def avatar_eval)
  have f: "timeouts demoAwaiting = [Timeout 1 3000 SilenceSend]"
    "currentTranscriptRef demoAwaiting = ''hello world''"
    "lastSentTranscriptRef demoAwaiting = []" "userTranscripts demoAwaiting = []"
    "onUserTranscriptRef demoAwaiting" "isSpeakingRef demoAwaiting" "nextHandle demoAwaiting = 2"
    by (simp_all add: demoAwaiting_def avatar_eval)
  have pend: "sendPending demoAwaiting" by (simp add: sendPending_def f)
  have t: "trim ''hello world'' = ''hello world''" by (simp add: trim_def isWhiteSpace_def)
  have long: "3 \<le> length (trim (currentTranscriptRef demoAwaiting))" by (simp add: f t)
  have und: "undisturbed deferralRun demoAwaiting"
    by (simp add: deferralRun_def demoAwaiting_def bystander_def avatar_eval)
  have und4: "undisturbed (take 4 deferralRun) demoAwaiting"
    by (simp add: deferralRun_def demoAwaiting_def bystander_def avatar_eval)
  have r4: "run (take 4 deferralRun) demoAwaiting = Some demoDeferred"
    by (simp add: demoDeferred_def deferralRun_def demoAwaiting_def avatar_eval)
  have r: "run deferralRun demoAwaiting = Some demoSent"
    by (simp add: demoSent_def deferralRun_def demoAwaiting_def avatar_eval)
  have fs4: "\<not> firedSilent (take 4 deferralRun) demoAwaiting"
    by (simp add: deferralRun_def demoAwaiting_def finalizeFiring_def avatar_eval)
  have fs: "firedSilent deferralRun demoAwaiting"
    by (simp add: deferralRun_def demoAwaiting_def finalizeFiring_def avatar_eval)
  have g: "timeouts demoDeferred = [Timeout 4 5300 SpeakEndGrace, Timeout 5 6000 RetrySend]"
    "timeouts demoSent = []"
    by (simp_all add: demoDeferred_def demoSent_def deferralRun_def demoAwaiting_def avatar_eval)
  obtain s1 where st: "step (3000, TimeoutFired 1) demoAwaiting = Some s1"
    by (simp add: demoAwaiting_def avatar_eval)
  have ff: "finalizeFiring (TimeoutFired 1) demoAwaiting"
    by (simp add: finalizeFiring_def f)
  from finalize_deferred_until_silent [OF reach pend long und4 r4,
      of 1 3000 s1 "TimeoutFired 1" s1] fs4 ff f st
  have d4: "deferred demoAwaiting demoDeferred"
    and one: "timeouts s1 = [Timeout 2 4000 RetrySend]"
    and two: "userTranscripts s1 = []"
    by simp_all
  from finalize_deferred_until_silent [OF reach pend long und r, of 1 3000 s1] fs
  have d: "finalized demoAwaiting demoSent" by simp
  from d4 d f t have "userTranscripts demoDeferred = []"
    "currentTranscriptRef demoDeferred = ''hello world''"
    "currentTranscriptRef demoSent = []" "lastSentTranscriptRef demoSent = ''hello world''"
    "userTranscripts demoSent = [''hello world'']"
    by (simp_all add: deferred_def finalized_def)
  with reach f(1) und r4 fs4 g r fs one two st show ?thesis by simp
qed


subsection \<open>The buffer between a cancelled countdown and the finalize\<close>

lemma ciStartsWith_refl_take: "ciStartsWith b (take n b)"
  by (simp add: ciStartsWith_def list_all2_conv_all_nth)

lemma ciStartsWith_append: "ciStartsWith b p \<Longrightarrow> ciStartsWith (b @ c) p"
  by (simp add: ciStartsWith_def)

lemma ciStartsWith_trans:
  assumes "ciStartsWith b p" and "ciStartsWith c (take n b)" and "length p \<le> n"
  shows "ciStartsWith c p"
proof -
  have lp: "length p \<le> length b" and pb: "\<forall>i<length p. lowerChar (p ! i) = lowerChar (b ! i)"
    using assms(1) by (auto simp: ciStartsWith_def list_all2_conv_all_nth)
  have lb: "min (length b) n \<le> length c"
    and bc: "\<forall>i<min (length b) n. lowerChar (b ! i) = lowerChar (c ! i)"
    using assms(2) by (auto simp: ciStartsWith_def list_all2_conv_all_nth)
  have "length p \<le> length c" using lp lb assms(3) by simp
  moreover have "\<forall>i<length p. lowerChar (p ! i) = lowerChar (c ! i)"
    using pb bc lp assms(3) by auto
  ultimately show ?thesis by (simp add: ciStartsWith_def list_all2_conv_all_nth)
qed

lemma covers_refl: "covers b b"
  by (simp add: covers_def ciStartsWith_refl_take)

lemma covers_trans:
  assumes "covers a b" and "covers b c"
  shows "covers a c"
proof -
  have "ciStartsWith c (take 20 a)"
    using assms by (intro ciStartsWith_trans [of b "take 20 a" c 20]) (simp_all add: covers_def)
  then show ?thesis using assms by (simp add: covers_def)
qed

lemma covers_pttAccumulate: "covers b (pttAccumulate b t)"
proof (cases "b \<noteq> [] \<and> \<not> startsWith (toLowerCase t) (substring0 20 (toLowerCase b))")
  case True
  then show ?thesis
    by (simp add: pttAccumulate_def covers_def ciStartsWith_append ciStartsWith_refl_take)
next
  case False
  show ?thesis
  proof (cases "length b < length t")
    case long: True
    have "ciStartsWith t (take 20 b)"
    proof (cases "b = []")
      case True
      then show ?thesis by (simp add: ciStartsWith_def)
    next
      case False
      with \<open>\<not> (b \<noteq> [] \<and> \<not> startsWith (toLowerCase t) (substring0 20 (toLowerCase b)))\<close>
      show ?thesis by (simp add: startsWith_lower_iff)
    qed
    with False long show ?thesis by (auto simp: pttAccumulate_def covers_def)
  next
    case short: False
    with False show ?thesis by (auto simp: pttAccumulate_def covers_refl)
  qed
qed

lemma pttInv_mounted: "pttInv (mounted True)"
  by (simp add: pttInv_def mounted_def)

lemma pttInv_now [simp]: "pttInv (s\<lparr>now := t\<rparr>) = pttInv s"
  by (simp add: pttInv_def)

lemma pttInv_onUserTranscription: "pttInv s \<Longrightarrow> pttInv (onUserTranscription T s)"
  by (auto simp: pttInv_def onUserTranscription_def Let_def armSendTimeout_def setTimeout_def
      clearSendTimeout_def clearTimeout_def list_all_iff split: option.splits)

lemma pttInv_sendTranscript:
  assumes "pttInv s" and "\<not> sendPending s" and "\<not> pttReleasedRef s"
  shows "pttInv (sendTranscript s)"
  using assms
  by (auto simp: pttInv_def sendPending_def sendTranscript_def Let_def armSendTimeout_def
      setTimeout_def list_all_iff list_ex_iff)

lemma fired_send_clears:
  assumes "pttInv s" and "x \<in> set (timeouts s)" and "callback x \<noteq> SpeakEndGrace"
  shows "\<not> sendPending (clearTimeout (handle x) s)"
proof -
  have tr: "\<forall>y\<in>set (timeouts s). callback y \<noteq> SpeakEndGrace \<longrightarrow>
              sendTimeoutRef s = Some (handle y)"
    using assms(1) by (simp add: pttInv_def list_all_iff)
  with assms(2,3) have "sendTimeoutRef s = Some (handle x)" by blast
  with tr have "\<forall>y\<in>set (timeouts s). callback y \<noteq> SpeakEndGrace \<longrightarrow> handle y = handle x"
    by auto
  then show ?thesis
    by (auto simp: sendPending_def clearTimeout_def list_ex_iff)
qed

lemma fired_unreleased:
  assumes "pttInv s" and "x \<in> set (timeouts s)"
    and "callback x = SilenceSend \<or> callback x = RetrySend"
  shows "\<not> pttReleasedRef s"
  using assms by (auto simp: pttInv_def list_all_iff)

lemma pttInv_clearTimeout: "pttInv s \<Longrightarrow> pttInv (clearTimeout h s)"
  by (auto simp: pttInv_def clearTimeout_def list_all_iff)

lemma pttInv_unrelease: "pttInv s \<Longrightarrow> pttInv (s\<lparr>pttReleasedRef := False\<rparr>)"
  by (auto simp: pttInv_def)

lemma pttInv_fireTimeout:
  assumes inv: "pttInv s" and f: "fireTimeout h s = Some s'"
  shows "pttInv s'"
proof -
  from f obtain x where x: "x \<in> set (timeouts s)" "handle x = h"
    and s': "s' = runCallback (callback x) (clearTimeout h s)"
    by (rule fireTimeout_cases)
  have c: "pttInv (clearTimeout h s)" using inv by (rule pttInv_clearTimeout)
  show ?thesis
  proof (cases "callback x = SpeakEndGrace")
    case True
    with c s' show ?thesis by (simp add: runCallback_def pttInv_def)
  next
    case False
    have np: "\<not> sendPending (clearTimeout h s)"
      using fired_send_clears [OF inv x(1) False] x(2) by simp
    show ?thesis
    proof (cases "callback x = ReleaseSend \<or> callback x = SettledSend")
      case True
      have "pttInv (sendTranscript ((clearTimeout h s)\<lparr>pttReleasedRef := False\<rparr>))"
        using c np by (intro pttInv_sendTranscript pttInv_unrelease) simp_all
      with True s' show ?thesis by (auto simp: runCallback_def)
    next
      case other: False
      with False have k: "callback x = SilenceSend \<or> callback x = RetrySend"
        by (cases "callback x") simp_all
      have "\<not> pttReleasedRef s" using inv x(1) k by (rule fired_unreleased)
      then have "pttInv (sendTranscript (clearTimeout h s))"
        using c np by (intro pttInv_sendTranscript) simp_all
      with k s' show ?thesis by (auto simp: runCallback_def)
    qed
  qed
qed

lemma pttInv_pushToTalkEffect: "pttInv s \<Longrightarrow> pttInv (pushToTalkEffect a True s)"
  by (auto simp: pttInv_def pushToTalkEffect_def Let_def armSendTimeout_def setTimeout_def
      clearSendTimeout_def clearTimeout_def list_all_iff split: option.splits)

lemma pttInv_handleEvent:
  assumes "pttInv s" and "keepsPtt e" and "handleEvent e s = Some s'"
  shows "pttInv s'"
proof (cases e)
  case (USER_TRANSCRIPTION T)
  with assms show ?thesis by (auto simp: handleEvent_def pttInv_onUserTranscription)
next
  case AVATAR_SPEAK_STARTED
  with assms show ?thesis by (auto simp: handleEvent_def onAvatarSpeakStarted_def pttInv_def)
next
  case AVATAR_SPEAK_ENDED
  with assms show ?thesis
    by (auto simp: handleEvent_def onAvatarSpeakEnded_def setTimeout_def pttInv_def)
next
  case SESSION_STREAM_READY
  with assms show ?thesis
    by (auto simp: handleEvent_def onSessionStreamReady_def drainPendingSpeak_eq pttInv_def)
next
  case SessionCreated
  with assms show ?thesis by (auto simp: handleEvent_def pttInv_def)
next
  case (PropsChanged a en)
  with assms show ?thesis by (auto simp: handleEvent_def keepsPtt_def pttInv_pushToTalkEffect)
next
  case (Speak T)
  with assms show ?thesis by (auto simp: handleEvent_def speak_def pttInv_def)
next
  case (TimeoutFired h)
  with assms show ?thesis by (auto simp: handleEvent_def intro: pttInv_fireTimeout)
qed

lemma pttInv_run:
  "pttInv s \<Longrightarrow> list_all (\<lambda>te. keepsPtt (snd te)) es \<Longrightarrow> run es s = Some s' \<Longrightarrow> pttInv s'"
proof (induction es arbitrary: s)
  case Nil
  then show ?case by simp
next
  case (Cons te es)
  then obtain s1 where s1: "step te s = Some s1" and rest: "run es s1 = Some s'"
    by (auto split: option.splits)
  from s1 obtain t e where te: "te = (t, e)" and h: "handleEvent e (s\<lparr>now := t\<rparr>) = Some s1"
    by (rule step_cases)
  have "pttInv s1"
    using Cons.prems(1,2) te h by (intro pttInv_handleEvent [of "s\<lparr>now := t\<rparr>" e s1]) simp_all
  with Cons.IH [of s1] Cons.prems(2) rest show ?case by simp
qed

lemma episode_now [simp]: "episode b0 u0 (s\<lparr>now := t\<rparr>) = episode b0 u0 s"
  by (simp add: episode_def)

lemma episode_frame:
  assumes "userTranscripts s' = userTranscripts s"
    and "currentTranscriptRef s' = currentTranscriptRef s"
    and "pttReleasedRef s' = pttReleasedRef s" and "sendPending s' = sendPending s"
  shows "episode b0 u0 s' = episode b0 u0 s"
  using assms by (simp add: episode_def)

lemma onUserTranscription_ptt:
  assumes "pushToTalkEnabledRef s"
  shows "userTranscripts (onUserTranscription T s) = userTranscripts s"
    and "pttReleasedRef (onUserTranscription T s) = pttReleasedRef s"
    and "covers (currentTranscriptRef s) (currentTranscriptRef (onUserTranscription T s))"
    and "\<not> pttReleasedRef s \<Longrightarrow> timeouts (onUserTranscription T s) = timeouts s"
  using assms
  by (auto simp: onUserTranscription_def Let_def armSendTimeout_def setTimeout_def
      clearSendTimeout_def clearTimeout_def covers_refl covers_pttAccumulate
      split: option.splits)

lemma episode_onUserTranscription:
  assumes "pttInv s" and "episode b0 u0 s"
  shows "episode b0 u0 (onUserTranscription T s)"
proof -
  have ptt: "pushToTalkEnabledRef s" using assms(1) by (simp add: pttInv_def)
  note f = onUserTranscription_ptt [OF ptt, of T]
  show ?thesis
  proof (cases "userTranscripts s = u0 \<and> covers b0 (currentTranscriptRef s)")
    case True
    then have "covers b0 (currentTranscriptRef (onUserTranscription T s))"
      using covers_trans [OF _ f(3)] by simp
    with True f(1) show ?thesis by (simp add: episode_def)
  next
    case False
    with assms(2) have r: "\<not> pttReleasedRef s" and p: "\<not> sendPending s"
      and u: "userTranscripts s = u0 \<or> (\<exists>b. covers b0 b \<and> userTranscripts s = u0 @ [trim b])"
      by (auto simp: episode_def)
    have "\<not> sendPending (onUserTranscription T s)"
      using p f(4) [OF r] by (simp add: sendPending_def)
    with r u f(1,2) show ?thesis by (simp add: episode_def)
  qed
qed

lemma episode_sendTranscript:
  assumes "userTranscripts s = u0" and "covers b0 (currentTranscriptRef s)"
    and "\<not> sendPending s" and "\<not> pttReleasedRef s"
  shows "episode b0 u0 (sendTranscript s)"
proof -
  let ?t = "trim (currentTranscriptRef s)"
  consider (short) "?t = [] \<or> length ?t < 3"
    | (speaking) "\<not> (?t = [] \<or> length ?t < 3)" "isSpeakingRef s"
    | (dup) "\<not> (?t = [] \<or> length ?t < 3)" "\<not> isSpeakingRef s" "?t = lastSentTranscriptRef s"
    | (emit) "\<not> (?t = [] \<or> length ?t < 3)" "\<not> isSpeakingRef s" "?t \<noteq> lastSentTranscriptRef s"
    by blast
  then show ?thesis
  proof cases
    case short
    then have "sendTranscript s = s\<lparr>currentTranscriptRef := []\<rparr>"
      by (simp add: sendTranscript_def Let_def)
    with assms show ?thesis by (simp add: episode_def sendPending_def)
  next
    case speaking
    then have "sendTranscript s = armSendTimeout RetrySend 1000 s"
      by (simp add: sendTranscript_def Let_def)
    with assms show ?thesis by (simp add: episode_def armSendTimeout_def setTimeout_def)
  next
    case dup
    then have "sendTranscript s = s\<lparr>currentTranscriptRef := []\<rparr>"
      by (simp add: sendTranscript_def Let_def)
    with assms show ?thesis by (simp add: episode_def sendPending_def)
  next
    case emit
    then have e: "userTranscripts (sendTranscript s) = u0 \<or>
                  userTranscripts (sendTranscript s) = u0 @ [?t]"
      and r: "pttReleasedRef (sendTranscript s) = pttReleasedRef s"
      and p: "timeouts (sendTranscript s) = timeouts s"
      using assms(1) by (auto simp: sendTranscript_def Let_def)
    from p assms(3) have "\<not> sendPending (sendTranscript s)" by (simp add: sendPending_def)
    with e r assms(2,4) show ?thesis unfolding episode_def by blast
  qed
qed

lemma episode_fireTimeout:
  assumes inv: "pttInv s" and ep: "episode b0 u0 s" and f: "fireTimeout h s = Some s'"
  shows "episode b0 u0 s'"
proof -
  from f obtain x where x: "x \<in> set (timeouts s)" "handle x = h"
    and s': "s' = runCallback (callback x) (clearTimeout h s)"
    by (rule fireTimeout_cases)
  show ?thesis
  proof (cases "callback x = SpeakEndGrace")
    case True
    have "sendPending (clearTimeout h s) \<longrightarrow> sendPending s"
      by (auto simp: sendPending_def clearTimeout_def list_ex_iff)
    with ep True s' show ?thesis
      by (auto simp: runCallback_def episode_def sendPending_def)
  next
    case False
    then have sp: "sendPending s" using x(1) by (auto simp: sendPending_def list_ex_iff)
    with ep have a: "userTranscripts s = u0" "covers b0 (currentTranscriptRef s)"
      by (auto simp: episode_def)
    have np: "\<not> sendPending (clearTimeout h s)"
      using fired_send_clears [OF inv x(1) False] x(2) by simp
    show ?thesis
    proof (cases "callback x = ReleaseSend \<or> callback x = SettledSend")
      case True
      have "episode b0 u0 (sendTranscript ((clearTimeout h s)\<lparr>pttReleasedRef := False\<rparr>))"
        using a np by (intro episode_sendTranscript) simp_all
      with True s' show ?thesis by (auto simp: runCallback_def)
    next
      case other: False
      with False have k: "callback x = SilenceSend \<or> callback x = RetrySend"
        by (cases "callback x") simp_all
      have "\<not> pttReleasedRef s" using inv x(1) k by (rule fired_unreleased)
      then have "episode b0 u0 (sendTranscript (clearTimeout h s))"
        using a np by (intro episode_sendTranscript) simp_all
      with k s' show ?thesis by (auto simp: runCallback_def)
    qed
  qed
qed

lemma episode_handleEvent:
  assumes "pttInv s" and "episode b0 u0 s" and "keepsGate e" and "handleEvent e s = Some s'"
  shows "episode b0 u0 s'"
proof (cases e)
  case (USER_TRANSCRIPTION T)
  with assms show ?thesis by (auto simp: handleEvent_def episode_onUserTranscription)
next
  case AVATAR_SPEAK_STARTED
  with assms(4) have "s' = onAvatarSpeakStarted s" by (simp add: handleEvent_def)
  then have "episode b0 u0 s' = episode b0 u0 s"
    by (intro episode_frame) (simp_all add: onAvatarSpeakStarted_def sendPending_def)
  with assms(2) show ?thesis by simp
next
  case AVATAR_SPEAK_ENDED
  with assms(4) have "s' = onAvatarSpeakEnded s" by (simp add: handleEvent_def)
  then have "episode b0 u0 s' = episode b0 u0 s"
    by (intro episode_frame)
       (simp_all add: onAvatarSpeakEnded_def setTimeout_def sendPending_def)
  with assms(2) show ?thesis by simp
next
  case SESSION_STREAM_READY
  with assms(4) have "s' = onSessionStreamReady s" by (simp add: handleEvent_def)
  then have "episode b0 u0 s' = episode b0 u0 s"
    by (intro episode_frame)
       (simp_all add: onSessionStreamReady_def drainPendingSpeak_eq sendPending_def)
  with assms(2) show ?thesis by simp
next
  case SessionCreated
  with assms(4) have "s' = s\<lparr>sessionRef := True\<rparr>" by (simp add: handleEvent_def)
  then have "episode b0 u0 s' = episode b0 u0 s"
    by (intro episode_frame) (simp_all add: sendPending_def)
  with assms(2) show ?thesis by simp
next
  case (PropsChanged a en)
  with assms show ?thesis by (simp add: keepsGate_def)
next
  case (Speak T)
  with assms(4) have "s' = speak T s" by (simp add: handleEvent_def)
  then have "episode b0 u0 s' = episode b0 u0 s"
    by (intro episode_frame) (simp_all add: speak_def sendPending_def)
  with assms(2) show ?thesis by simp
next
  case (TimeoutFired h)
  with assms show ?thesis by (auto simp: handleEvent_def intro: episode_fireTimeout)
qed

lemma keepsGate_keepsPtt: "keepsGate e \<Longrightarrow> keepsPtt e"
  by (cases e) (simp_all add: keepsGate_def keepsPtt_def)

lemma episode_run:
  "pttInv s \<Longrightarrow> episode b0 u0 s \<Longrightarrow> list_all (\<lambda>te. keepsGate (snd te)) es \<Longrightarrow>
   run es s = Some s' \<Longrightarrow> episode b0 u0 s'"
proof (induction es arbitrary: s)
  case Nil
  then show ?case by simp
next
  case (Cons te es)
  then obtain s1 where s1: "step te s = Some s1" and rest: "run es s1 = Some s'"
    by (auto split: option.splits)
  from s1 obtain t e where te: "te = (t, e)" and h: "handleEvent e (s\<lparr>now := t\<rparr>) = Some s1"
    by (rule step_cases)
  have g: "keepsGate e" using Cons.prems(3) te by simp
  have i1: "pttInv s1"
    using Cons.prems(1) g h
    by (intro pttInv_handleEvent [of "s\<lparr>now := t\<rparr>" e s1]) (simp_all add: keepsGate_keepsPtt)
  have e1: "episode b0 u0 s1"
    using Cons.prems(1,2) g h
    by (intro episode_handleEvent [of "s\<lparr>now := t\<rparr>" b0 u0 e s1]) simp_all
  from Cons.IH [OF i1 e1 _ rest] Cons.prems(3) show ?case by simp
qed

text \<open>
  C5, as stated: whenever a newly accepted event cancels the finalize countdown, the text
  finalized in the end contains the buffer of that moment, and the buffer never goes back
  to a shorter value. In automatic mode every accepted event cancels the countdown, and
  the handler stores the text of the event in place of the buffer: after "hello there
  friend", the event "hey" leaves the buffer "hey", which is what is finalized. In
  push-to-talk mode the buffer cannot shrink, but an event that starts with the first 20
  characters of the buffer and is longer takes its place, whatever follows those
  characters: "I have five years of excellent work" replaces "I have five years of
  experience". What the merge heuristic keeps of a buffer is its length and its first 20
  characters.
\<close>

theorem later_event_replaces_buffer:
  "map_option (\<lambda>s. (currentTranscriptRef s, timeouts s))
     (run [(0, USER_TRANSCRIPTION ''hello there friend'')] (mounted False))
     = Some (''hello there friend'', [Timeout 1 3000 SilenceSend])
   \<and> map_option (\<lambda>s. (currentTranscriptRef s, timeouts s))
     (run [(0, USER_TRANSCRIPTION ''hello there friend''), (1000, USER_TRANSCRIPTION ''hey'')]
        (mounted False))
     = Some (''hey'', [Timeout 2 4000 SilenceSend])
   \<and> map_option userTranscripts
     (run [(0, USER_TRANSCRIPTION ''hello there friend''), (1000, USER_TRANSCRIPTION ''hey''),
           (4000, TimeoutFired 2)] (mounted False))
     = Some [''hey'']
   \<and> \<not> covers ''hello there friend'' ''hey''
   \<and> map_option userTranscripts
     (run [(0, PropsChanged True True),
           (100, USER_TRANSCRIPTION ''I have five years of experience''),
           (1000, PropsChanged False True),
           (1500, USER_TRANSCRIPTION ''I have five years of excellent work''),
           (3500, TimeoutFired 2)] (mounted True))
     = Some [''I have five years of excellent work'']
   \<and> \<not> prefix ''I have five years of experience'' ''I have five years of excellent work''"
  by (simp add: avatar_eval covers_def)

text \<open>
  C5, amended: in push-to-talk mode. Take any state \<open>s\<close> that the component reaches without
  leaving push-to-talk mode, for instance the state just after an accepted event has
  cancelled and rearmed the countdown, and any run from \<open>s\<close> in which the props do not
  change (the same episode). Then at most one text is emitted in that run, and it is the
  trimmed form of a buffer that covers the buffer of \<open>s\<close>: at least as long, and starting,
  up to case, with its first 20 characters. And for as long as a release is waited for or
  a countdown is pending, nothing has been emitted and the buffer covers the buffer of
  \<open>s\<close>.
\<close>

theorem ptt_buffer_never_regresses:
  assumes reach: "run es0 (mounted True) = Some s"
    and ptt: "list_all (\<lambda>te. keepsPtt (snd te)) es0"
    and later: "run es s = Some s'"
    and gate: "list_all (\<lambda>te. keepsGate (snd te)) es"
  shows "(userTranscripts s' = userTranscripts s
          \<or> (\<exists>b. covers (currentTranscriptRef s) b
                 \<and> userTranscripts s' = userTranscripts s @ [trim b]))
       \<and> (pttReleasedRef s' \<or> sendPending s' \<longrightarrow>
            userTranscripts s' = userTranscripts s
            \<and> covers (currentTranscriptRef s) (currentTranscriptRef s'))"
proof -
  have inv: "pttInv s" using pttInv_mounted ptt reach by (rule pttInv_run)
  have "episode (currentTranscriptRef s) (userTranscripts s) s"
    by (simp add: episode_def covers_refl)
  with inv have "episode (currentTranscriptRef s) (userTranscripts s) s'"
    using gate later by (rule episode_run)
  then show ?thesis unfolding episode_def by blast
qed

theorem ptt_buffer_never_regresses_witness:
  "run [(0, PropsChanged True True), (100, USER_TRANSCRIPTION ''I have five''),
        (1000, PropsChanged False True), (1500, USER_TRANSCRIPTION ''I have five years'')]
     (mounted True) = Some demoCancelled
   \<and> run [(1800, USER_TRANSCRIPTION ''of experience''), (3800, TimeoutFired 3)] demoCancelled
     = Some demoFinalized
   \<and> currentTranscriptRef demoCancelled = ''I have five years''
   \<and> timeouts demoCancelled = [Timeout 2 3500 SettledSend]
   \<and> userTranscripts demoCancelled = []
   \<and> userTranscripts demoFinalized = [''I have five years of experience'']
   \<and> (\<exists>b. covers ''I have five years'' b \<and> [''I have five years of experience''] = [trim b])"
proof -
  have reach: "run [(0, PropsChanged True True), (100, USER_TRANSCRIPTION ''I have five''),
        (1000, PropsChanged False True), (1500, USER_TRANSCRIPTION ''I have five years'')]
     (mounted True) = Some demoCancelled"
    by (simp add: demoCancelled_def avatar_eval)
  have ptt: "list_all (\<lambda>te. keepsPtt (snd te))
      [(0 :: nat, PropsChanged True True), (100, USER_TRANSCRIPTION ''I have five''),
        (1000, PropsChanged False True), (1500, USER_TRANSCRIPTION ''I have five years'')]"
    by (simp add: keepsPtt_def)
  have c: "currentTranscriptRef demoCancelled = ''I have five years''"
    "timeouts demoCancelled = [Timeout 2 3500 SettledSend]"
    "userTranscripts demoCancelled = []"
    by (simp_all add: demoCancelled_def avatar_eval)
  have later: "run [(1800, USER_TRANSCRIPTION ''of experience''), (3800, TimeoutFired 3)]
      demoCancelled = Some demoFinalized"
    by (simp add: demoFinalized_def demoCancelled_def avatar_eval)
  have gate: "list_all (\<lambda>te. keepsGate (snd te))
      [(1800 :: nat, USER_TRANSCRIPTION ''of experience''), (3800, TimeoutFired 3)]"
    by (simp add: keepsGate_def)
  have f: "userTranscripts demoFinalized = [''I have five years of experience'']"
    by (simp add: demoFinalized_def demoCancelled_def avatar_eval)
  from ptt_buffer_never_regresses [OF reach ptt later gate] c f
  have "\<exists>b. covers ''I have five years'' b \<and> [''I have five years of experience''] = [trim b]"
    by simp
  with reach later c f show ?thesis by simp
qed

subsection \<open>The finalize action\<close>

lemma oneTurn_now [simp]: "oneTurn u0 (s\<lparr>now := t\<rparr>) = oneTurn u0 s"
  by (simp add: oneTurn_def)

lemma oneTurn_frame:
  assumes "userTranscripts s' = userTranscripts s" and "prevPushToTalkRef s' = prevPushToTalkRef s"
    and "pttReleasedRef s' = pttReleasedRef s" and "sendPending s' = sendPending s"
  shows "oneTurn u0 s' = oneTurn u0 s"
  using assms by (simp add: oneTurn_def)

lemma press_clears:
  assumes "pttInv s" and "\<not> prevPushToTalkRef s"
  shows "oneTurn (userTranscripts s) (pushToTalkEffect True True s)"
proof -
  have tr: "\<forall>y\<in>set (timeouts s). callback y \<noteq> SpeakEndGrace \<longrightarrow>
              sendTimeoutRef s = Some (handle y)"
    using assms(1) by (simp add: pttInv_def list_all_iff)
  show ?thesis
  proof (cases "sendTimeoutRef s")
    case None
    with tr have "\<not> sendPending s" by (auto simp: sendPending_def list_ex_iff)
    with None assms(2) show ?thesis
      by (simp add: oneTurn_def pushToTalkEffect_def Let_def sendPending_def)
  next
    case (Some h)
    with tr have "\<forall>y\<in>set (timeouts s). callback y \<noteq> SpeakEndGrace \<longrightarrow> handle y = h" by auto
    then have "\<not> sendPending (clearTimeout h s)"
      by (auto simp: sendPending_def clearTimeout_def list_ex_iff)
    with Some assms(2) show ?thesis
      by (simp add: oneTurn_def pushToTalkEffect_def Let_def sendPending_def clearTimeout_def)
  qed
qed

lemma onUserTranscription_prev [simp]:
  "prevPushToTalkRef (onUserTranscription T s) = prevPushToTalkRef s"
  by (simp add: onUserTranscription_def Let_def armSendTimeout_def setTimeout_def
      clearSendTimeout_def clearTimeout_def split: option.split)

lemma oneTurn_onUserTranscription:
  assumes inv: "pttInv s" and one: "oneTurn u0 s"
  shows "oneTurn u0 (onUserTranscription T s)"
proof -
  have ptt: "pushToTalkEnabledRef s" using inv by (simp add: pttInv_def)
  note f = onUserTranscription_ptt [OF ptt, of T]
  show ?thesis
  proof (cases "pttReleasedRef s")
    case True
    with one have "userTranscripts s = u0" "\<not> prevPushToTalkRef s"
      by (auto simp: oneTurn_def)
    with f(1) show ?thesis by (simp add: oneTurn_def)
  next
    case False
    from f(4) [OF False] have "sendPending (onUserTranscription T s) = sendPending s"
      by (simp add: sendPending_def)
    with f(1,2) have "oneTurn u0 (onUserTranscription T s) = oneTurn u0 s"
      by (intro oneTurn_frame) simp_all
    with one show ?thesis by simp
  qed
qed

lemma oneTurn_release:
  assumes one: "oneTurn u0 s"
  shows "oneTurn u0 (pushToTalkEffect False True s)"
proof (cases "prevPushToTalkRef s")
  case True
  with one have "userTranscripts s = u0" by (auto simp: oneTurn_def)
  then show ?thesis
    by (simp add: oneTurn_def pushToTalkEffect_def Let_def armSendTimeout_def setTimeout_def
        clearSendTimeout_def clearTimeout_def split: option.split)
next
  case False
  then have "pushToTalkEffect False True s =
      s\<lparr>pushToTalkEnabledRef := True, prevPushToTalkRef := False\<rparr>"
    by (simp add: pushToTalkEffect_def Let_def)
  with one False show ?thesis by (simp add: oneTurn_def sendPending_def)
qed

lemma oneTurn_sendTranscript:
  assumes "userTranscripts s = u0" and "\<not> prevPushToTalkRef s" and "\<not> pttReleasedRef s"
    and "\<not> sendPending s"
  shows "oneTurn u0 (sendTranscript s)"
proof -
  let ?t = "trim (currentTranscriptRef s)"
  consider (short) "?t = [] \<or> length ?t < 3"
    | (speaking) "\<not> (?t = [] \<or> length ?t < 3)" "isSpeakingRef s"
    | (dup) "\<not> (?t = [] \<or> length ?t < 3)" "\<not> isSpeakingRef s" "?t = lastSentTranscriptRef s"
    | (emit) "\<not> (?t = [] \<or> length ?t < 3)" "\<not> isSpeakingRef s" "?t \<noteq> lastSentTranscriptRef s"
    by blast
  then show ?thesis
  proof cases
    case short
    then have "sendTranscript s = s\<lparr>currentTranscriptRef := []\<rparr>"
      by (simp add: sendTranscript_def Let_def)
    with assms show ?thesis by (simp add: oneTurn_def)
  next
    case speaking
    then have "sendTranscript s = armSendTimeout RetrySend 1000 s"
      by (simp add: sendTranscript_def Let_def)
    with assms show ?thesis by (simp add: oneTurn_def armSendTimeout_def setTimeout_def)
  next
    case dup
    then have "sendTranscript s = s\<lparr>currentTranscriptRef := []\<rparr>"
      by (simp add: sendTranscript_def Let_def)
    with assms show ?thesis by (simp add: oneTurn_def)
  next
    case emit
    then have "sendTranscript s =
        s\<lparr>lastSentTranscriptRef := ?t, currentTranscriptRef := [],
          userTranscripts := (if onUserTranscriptRef s then userTranscripts s @ [?t]
                              else userTranscripts s)\<rparr>"
      by (simp add: sendTranscript_def Let_def)
    with assms show ?thesis by (simp add: oneTurn_def sendPending_def)
  qed
qed

lemma oneTurn_fireTimeout:
  assumes inv: "pttInv s" and one: "oneTurn u0 s" and f: "fireTimeout h s = Some s'"
  shows "oneTurn u0 s'"
proof -
  from f obtain x where x: "x \<in> set (timeouts s)" "handle x = h"
    and s': "s' = runCallback (callback x) (clearTimeout h s)"
    by (rule fireTimeout_cases)
  show ?thesis
  proof (cases "callback x = SpeakEndGrace")
    case True
    have "sendPending (clearTimeout h s) \<longrightarrow> sendPending s"
      by (auto simp: sendPending_def clearTimeout_def list_ex_iff)
    with one True s' show ?thesis
      by (auto simp: runCallback_def oneTurn_def sendPending_def clearTimeout_def)
  next
    case False
    then have sp: "sendPending s" using x(1) by (auto simp: sendPending_def list_ex_iff)
    with one have a: "userTranscripts s = u0" "\<not> prevPushToTalkRef s"
      by (auto simp: oneTurn_def)
    have np: "\<not> sendPending (clearTimeout h s)"
      using fired_send_clears [OF inv x(1) False] x(2) by simp
    show ?thesis
    proof (cases "callback x = ReleaseSend \<or> callback x = SettledSend")
      case True
      have "oneTurn u0 (sendTranscript ((clearTimeout h s)\<lparr>pttReleasedRef := False\<rparr>))"
        using a np by (intro oneTurn_sendTranscript) (simp_all add: clearTimeout_def)
      with True s' show ?thesis by (auto simp: runCallback_def)
    next
      case other: False
      with False have k: "callback x = SilenceSend \<or> callback x = RetrySend"
        by (cases "callback x") simp_all
      have "\<not> pttReleasedRef s" using inv x(1) k by (rule fired_unreleased)
      then have "oneTurn u0 (sendTranscript (clearTimeout h s))"
        using a np by (intro oneTurn_sendTranscript) (simp_all add: clearTimeout_def)
      with k s' show ?thesis by (auto simp: runCallback_def)
    qed
  qed
qed

lemma oneTurn_handleEvent:
  assumes "pttInv s" and "oneTurn u0 s" and "noPress e" and "handleEvent e s = Some s'"
  shows "oneTurn u0 s'"
proof (cases "quiet e")
  case True
  from quiet_frame [OF True assms(4)] have "oneTurn u0 s' = oneTurn u0 s"
    by (intro oneTurn_frame) simp_all
  with assms(2) show ?thesis by simp
next
  case False
  show ?thesis
  proof (cases e)
    case (USER_TRANSCRIPTION T)
    with assms show ?thesis by (auto simp: handleEvent_def oneTurn_onUserTranscription)
  next
    case (PropsChanged a en)
    with assms(3) have "a = False" "en = True" by (simp_all add: noPress_def)
    with PropsChanged assms show ?thesis by (auto simp: handleEvent_def oneTurn_release)
  next
    case (TimeoutFired h)
    with assms show ?thesis by (auto simp: handleEvent_def intro: oneTurn_fireTimeout)
  qed (use False in \<open>simp_all add: quiet_def\<close>)
qed

lemma noPress_keepsPtt: "noPress e \<Longrightarrow> keepsPtt e"
  by (cases e) (simp_all add: noPress_def keepsPtt_def)

lemma oneTurn_run:
  "pttInv s \<Longrightarrow> oneTurn u0 s \<Longrightarrow> list_all (\<lambda>te. noPress (snd te)) es \<Longrightarrow>
   run es s = Some s' \<Longrightarrow> oneTurn u0 s'"
proof (induction es arbitrary: s)
  case Nil
  then show ?case by simp
next
  case (Cons te es)
  then obtain s1 where s1: "step te s = Some s1" and rest: "run es s1 = Some s'"
    by (auto split: option.splits)
  from s1 obtain t e where te: "te = (t, e)" and h: "handleEvent e (s\<lparr>now := t\<rparr>) = Some s1"
    by (rule step_cases)
  have g: "noPress e" using Cons.prems(3) te by simp
  have i1: "pttInv s1"
    using Cons.prems(1) g h
    by (intro pttInv_handleEvent [of "s\<lparr>now := t\<rparr>" e s1]) (simp_all add: noPress_keepsPtt)
  have e1: "oneTurn u0 s1"
    using Cons.prems(1,2) g h
    by (intro oneTurn_handleEvent [of "s\<lparr>now := t\<rparr>" u0 e s1]) simp_all
  from Cons.IH [OF i1 e1 _ rest] Cons.prems(3) show ?case by simp
qed

lemma one_turn_per_episode:
  assumes reach: "run es0 (mounted True) = Some s0"
    and ptt: "list_all (\<lambda>te. keepsPtt (snd te)) es0"
    and up: "\<not> prevPushToTalkRef s0"
    and press: "step (t, PropsChanged True True) s0 = Some s1"
    and within: "list_all (\<lambda>te. noPress (snd te)) es"
    and later: "run es s1 = Some s'"
  shows "take (length (userTranscripts s0)) (userTranscripts s') = userTranscripts s0
       \<and> length (userTranscripts s') \<le> Suc (length (userTranscripts s0))"
proof -
  have inv: "pttInv s0" using pttInv_mounted ptt reach by (rule pttInv_run)
  have s1: "s1 = pushToTalkEffect True True (s0\<lparr>now := t\<rparr>)"
    using press by (simp add: step_def handleEvent_def split: if_splits)
  have "oneTurn (userTranscripts (s0\<lparr>now := t\<rparr>)) s1"
    unfolding s1 using inv up by (intro press_clears) simp_all
  then have o1: "oneTurn (userTranscripts s0) s1" by simp
  have i1: "pttInv s1" unfolding s1 using inv by (intro pttInv_pushToTalkEffect) simp
  from oneTurn_run [OF i1 o1 within later] show ?thesis
    by (auto simp: oneTurn_def)
qed

lemma markerInv_now [simp]: "markerInv (s\<lparr>now := t\<rparr>) = markerInv s"
  by (simp add: markerInv_def)

lemma markerInv_sendTranscript: "markerInv s \<Longrightarrow> markerInv (sendTranscript s)"
  by (auto simp: markerInv_def sendTranscript_def Let_def armSendTimeout_def setTimeout_def)

lemma markerInv_handleEvent:
  assumes "markerInv s" and "handleEvent e s = Some s'"
  shows "markerInv s'"
proof (cases "quiet e")
  case True
  from quiet_frame [OF True assms(2)] assms(1) show ?thesis by (simp add: markerInv_def)
next
  case False
  show ?thesis
  proof (cases e)
    case (USER_TRANSCRIPTION T)
    with assms(2) have "s' = onUserTranscription T s" by (simp add: handleEvent_def)
    with assms(1) onUserTranscription_marker [of T s] show ?thesis
      by (auto simp: markerInv_def)
  next
    case (PropsChanged a en)
    with assms(2) have "s' = pushToTalkEffect a en s" by (simp add: handleEvent_def)
    with assms(1) pushToTalkEffect_marker [of a en s] show ?thesis
      by (auto simp: markerInv_def)
  next
    case (TimeoutFired h)
    with assms(2) have f: "fireTimeout h s = Some s'" by (simp add: handleEvent_def)
    then obtain x where s': "s' = runCallback (callback x) (clearTimeout h s)"
      by (rule fireTimeout_cases)
    have c: "markerInv (clearTimeout h s)" "markerInv ((clearTimeout h s)\<lparr>pttReleasedRef := False\<rparr>)"
      "markerInv ((clearTimeout h s)\<lparr>isSpeakingRef := False\<rparr>)"
      using assms(1) by (simp_all add: markerInv_def clearTimeout_def)
    then show ?thesis
      unfolding s' by (cases "callback x") (simp_all add: runCallback_def markerInv_sendTranscript)
  qed (use False in \<open>simp_all add: quiet_def\<close>)
qed

lemma markerInv_run: "markerInv s \<Longrightarrow> run es s = Some s' \<Longrightarrow> markerInv s'"
proof (induction es arbitrary: s)
  case Nil
  then show ?case by simp
next
  case (Cons te es)
  then obtain s1 where s1: "step te s = Some s1" and rest: "run es s1 = Some s'"
    by (auto split: option.splits)
  from s1 obtain t e where te: "te = (t, e)" and h: "handleEvent e (s\<lparr>now := t\<rparr>) = Some s1"
    by (rule step_cases)
  have "markerInv s1"
    using Cons.prems(1) h by (intro markerInv_handleEvent [of "s\<lparr>now := t\<rparr>" e s1]) simp_all
  from Cons.IH [OF this rest] show ?case .
qed

lemma markerInv_mounted: "markerInv (mounted m)"
  by (simp add: markerInv_def mounted_def)

text \<open>
  C4, as stated: at finalize time a buffer that is long enough and differs from the last
  finalized text is emitted, the marker is set and the buffer cleared, so that no text is
  finalized twice within a capture episode. \<^verbatim>\<open>sendTranscript\<close> tests \<^verbatim>\<open>isSpeakingRef\<close> before
  it compares with the marker: while the avatar speaks, nothing is emitted, the marker is
  not set and the buffer is kept. And the marker holds one text, the one finalized last:
  in the run \<open>repeatedText\<close> of automatic mode no gap between events exceeds 5 seconds, so
  the marker is never reset, and "alpha one" is finalized, then "beta two", then
  "alpha one" a second time.
\<close>

theorem finalize_guarded_and_text_repeated:
  "userTranscripts (sendTranscript
      ((mounted False)\<lparr>currentTranscriptRef := ''hello world'', isSpeakingRef := True\<rparr>)) = []
   \<and> lastSentTranscriptRef (sendTranscript
      ((mounted False)\<lparr>currentTranscriptRef := ''hello world'', isSpeakingRef := True\<rparr>)) = []
   \<and> currentTranscriptRef (sendTranscript
      ((mounted False)\<lparr>currentTranscriptRef := ''hello world'', isSpeakingRef := True\<rparr>))
      = ''hello world''
   \<and> map_option (\<lambda>s. (lastSentTranscriptRef s, userTranscripts s))
       (run (take 2 repeatedText) (mounted False)) = Some (''alpha one'', [''alpha one''])
   \<and> map_option (\<lambda>s. (lastSentTranscriptRef s, userTranscripts s))
       (run (take 3 repeatedText) (mounted False)) = Some (''alpha one'', [''alpha one''])
   \<and> map_option (\<lambda>s. (lastSentTranscriptRef s, userTranscripts s))
       (run (take 5 repeatedText) (mounted False))
       = Some (''beta two'', [''alpha one'', ''beta two''])
   \<and> map_option (\<lambda>s. (lastSentTranscriptRef s, userTranscripts s))
       (run repeatedText (mounted False))
       = Some (''alpha one'', [''alpha one'', ''beta two'', ''alpha one''])"
  by (simp add: repeatedText_def avatar_eval)

text \<open>
  C4, amended. \<^verbatim>\<open>sendTranscript\<close> trims the buffer. If fewer than 3 characters are left, it
  clears the buffer and emits nothing. Otherwise, while the avatar is speaking, it emits
  nothing and leaves buffer and marker as they are; it sets itself to run again in one
  second (C8). Otherwise, if the text equals the marker, it clears the buffer and emits
  nothing; if it differs, it hands exactly this one text to the \<^verbatim>\<open>onUserTranscript\<close> callback
  (when the parent supplied one), sets the marker to it and clears the buffer. In both
  cases the marker then holds the text, so that finalizing the same text again right after
  emits nothing more. Only a text equal to the marker is suppressed, and in every state
  the component reaches from \<open>mounted\<close>, where the callback is supplied, the marker is empty
  or is the text emitted last. In push-to-talk mode at most one utterance is emitted within
  a capture episode, from one press of the gate up to the next, hence at most one for any
  one text.
\<close>

theorem finalize_action:
  assumes "t = trim (currentTranscriptRef s)"
  shows "(length t < 3 \<longrightarrow> sendTranscript s = s\<lparr>currentTranscriptRef := []\<rparr>)
       \<and> (3 \<le> length t \<and> isSpeakingRef s \<longrightarrow>
            sendTranscript s = armSendTimeout RetrySend 1000 s
            \<and> userTranscripts (sendTranscript s) = userTranscripts s
            \<and> currentTranscriptRef (sendTranscript s) = currentTranscriptRef s
            \<and> lastSentTranscriptRef (sendTranscript s) = lastSentTranscriptRef s)
       \<and> (3 \<le> length t \<and> \<not> isSpeakingRef s \<and> t = lastSentTranscriptRef s \<longrightarrow>
            sendTranscript s = s\<lparr>currentTranscriptRef := []\<rparr>)
       \<and> (3 \<le> length t \<and> \<not> isSpeakingRef s \<and> t \<noteq> lastSentTranscriptRef s \<longrightarrow>
            sendTranscript s =
              s\<lparr>lastSentTranscriptRef := t, currentTranscriptRef := [],
                userTranscripts :=
                  (if onUserTranscriptRef s then userTranscripts s @ [t]
                   else userTranscripts s)\<rparr>)
       \<and> (3 \<le> length t \<and> \<not> isSpeakingRef s \<longrightarrow>
            lastSentTranscriptRef (sendTranscript s) = t
            \<and> (\<forall>b. trim b = t \<longrightarrow>
                 userTranscripts (sendTranscript ((sendTranscript s)\<lparr>currentTranscriptRef := b\<rparr>))
                 = userTranscripts (sendTranscript s)))
       \<and> (run rs (mounted m) = Some r \<longrightarrow>
            lastSentTranscriptRef r = []
            \<or> (userTranscripts r \<noteq> [] \<and> last (userTranscripts r) = lastSentTranscriptRef r))
       \<and> (run ps (mounted True) = Some pa \<and> list_all (\<lambda>te. keepsPtt (snd te)) ps
            \<and> \<not> prevPushToTalkRef pa \<and> step (tp, PropsChanged True True) pa = Some pb
            \<and> list_all (\<lambda>te. noPress (snd te)) es \<and> run es pb = Some pe \<longrightarrow>
            take (length (userTranscripts pa)) (userTranscripts pe) = userTranscripts pa
            \<and> length (userTranscripts pe) \<le> Suc (length (userTranscripts pa)))"
proof -
  have ne: "3 \<le> length t \<longrightarrow> t \<noteq> []" by auto
  have short: "length t < 3 \<longrightarrow> sendTranscript s = s\<lparr>currentTranscriptRef := []\<rparr>"
    using assms by (auto simp: sendTranscript_def Let_def)
  have speaking: "3 \<le> length t \<and> isSpeakingRef s \<longrightarrow>
            sendTranscript s = armSendTimeout RetrySend 1000 s
            \<and> userTranscripts (sendTranscript s) = userTranscripts s
            \<and> currentTranscriptRef (sendTranscript s) = currentTranscriptRef s
            \<and> lastSentTranscriptRef (sendTranscript s) = lastSentTranscriptRef s"
    using assms ne
    by (auto simp: sendTranscript_def Let_def armSendTimeout_def setTimeout_def)
  have dup: "3 \<le> length t \<and> \<not> isSpeakingRef s \<and> t = lastSentTranscriptRef s \<longrightarrow>
            sendTranscript s = s\<lparr>currentTranscriptRef := []\<rparr>"
    using assms by (auto simp: sendTranscript_def Let_def)
  have emit: "3 \<le> length t \<and> \<not> isSpeakingRef s \<and> t \<noteq> lastSentTranscriptRef s \<longrightarrow>
            sendTranscript s =
              s\<lparr>lastSentTranscriptRef := t, currentTranscriptRef := [],
                userTranscripts :=
                  (if onUserTranscriptRef s then userTranscripts s @ [t]
                   else userTranscripts s)\<rparr>"
    using assms by (auto simp: sendTranscript_def Let_def)
  have again: "3 \<le> length t \<and> \<not> isSpeakingRef s \<longrightarrow>
            lastSentTranscriptRef (sendTranscript s) = t
            \<and> (\<forall>b. trim b = t \<longrightarrow>
                 userTranscripts (sendTranscript ((sendTranscript s)\<lparr>currentTranscriptRef := b\<rparr>))
                 = userTranscripts (sendTranscript s))"
    using assms by (auto simp: sendTranscript_def Let_def)
  have marker: "run rs (mounted m) = Some r \<longrightarrow>
            lastSentTranscriptRef r = []
            \<or> (userTranscripts r \<noteq> [] \<and> last (userTranscripts r) = lastSentTranscriptRef r)"
  proof
    assume "run rs (mounted m) = Some r"
    with markerInv_mounted have "markerInv r" by (rule markerInv_run)
    then show "lastSentTranscriptRef r = []
            \<or> (userTranscripts r \<noteq> [] \<and> last (userTranscripts r) = lastSentTranscriptRef r)"
      by (simp add: markerInv_def)
  qed
  have gate: "run ps (mounted True) = Some pa \<and> list_all (\<lambda>te. keepsPtt (snd te)) ps
            \<and> \<not> prevPushToTalkRef pa \<and> step (tp, PropsChanged True True) pa = Some pb
            \<and> list_all (\<lambda>te. noPress (snd te)) es \<and> run es pb = Some pe \<longrightarrow>
            take (length (userTranscripts pa)) (userTranscripts pe) = userTranscripts pa
            \<and> length (userTranscripts pe) \<le> Suc (length (userTranscripts pa))"
    using one_turn_per_episode [of ps pa tp pb es pe] by blast
  from short speaking dup emit again marker gate show ?thesis by blast
qed

theorem finalize_action_witness:
  "sendTranscript ((mounted True)\<lparr>currentTranscriptRef := ''  I have five years ''\<rparr>)
     = (mounted True)\<lparr>lastSentTranscriptRef := ''I have five years'', currentTranscriptRef := [],
          userTranscripts := [''I have five years'']\<rparr>
   \<and> sendTranscript ((mounted True)\<lparr>currentTranscriptRef := '' ok ''\<rparr>) = mounted True
   \<and> sendTranscript ((mounted True)\<lparr>currentTranscriptRef := ''I have'',
         lastSentTranscriptRef := ''I have''\<rparr>)
     = (mounted True)\<lparr>lastSentTranscriptRef := ''I have''\<rparr>
   \<and> sendTranscript ((mounted True)\<lparr>currentTranscriptRef := ''I have'', isSpeakingRef := True\<rparr>)
     = (mounted True)\<lparr>currentTranscriptRef := ''I have'', isSpeakingRef := True,
          timeouts := [Timeout 1 1000 RetrySend], nextHandle := 2, sendTimeoutRef := Some 1\<rparr>
   \<and> map_option (\<lambda>s. (lastSentTranscriptRef s, last (userTranscripts s)))
       (run (take 5 repeatedText) (mounted False)) = Some (''beta two'', ''beta two'')
   \<and> step (0, PropsChanged True True) (mounted True) = Some demoPressed
   \<and> run gateEpisode demoPressed = Some demoEpisode
   \<and> userTranscripts demoEpisode = [''I have five years of experience'']
   \<and> length (userTranscripts demoEpisode) \<le> Suc (length (userTranscripts (mounted True)))
   \<and> currentTranscriptRef demoEpisode = ''I have five years of experience''
   \<and> timeouts demoEpisode = []"
proof -
  have t1: "''I have five years'' = trim (currentTranscriptRef
              ((mounted True)\<lparr>currentTranscriptRef := ''  I have five years ''\<rparr>))"
    and t2: "''ok'' = trim (currentTranscriptRef ((mounted True)\<lparr>currentTranscriptRef := '' ok ''\<rparr>))"
    and t3: "''I have'' = trim (currentTranscriptRef ((mounted True)\<lparr>currentTranscriptRef := ''I have'',
         lastSentTranscriptRef := ''I have''\<rparr>))"
    and t4: "''I have'' = trim (currentTranscriptRef
              ((mounted True)\<lparr>currentTranscriptRef := ''I have'', isSpeakingRef := True\<rparr>))"
    by (simp_all add: trim_def isWhiteSpace_def)
  have m: "\<not> isSpeakingRef (mounted True)" "onUserTranscriptRef (mounted True)"
    "lastSentTranscriptRef (mounted True) = []" "userTranscripts (mounted True) = []"
    "currentTranscriptRef (mounted True) = []" "\<not> prevPushToTalkRef (mounted True)"
    by (simp_all add: mounted_def)
  obtain r where r: "run (take 5 repeatedText) (mounted False) = Some r"
    and rm: "lastSentTranscriptRef r = ''beta two''"
    by (simp add: repeatedText_def avatar_eval)
  have ps: "run [] (mounted True) = Some (mounted True)"
    "list_all (\<lambda>te. keepsPtt (snd te)) ([] :: (nat \<times> event) list)"
    by simp_all
  have press: "step (0, PropsChanged True True) (mounted True) = Some demoPressed"
    by (simp add: demoPressed_def avatar_eval)
  have within: "list_all (\<lambda>te. noPress (snd te)) gateEpisode"
    by (simp add: gateEpisode_def noPress_def)
  have later: "run gateEpisode demoPressed = Some demoEpisode"
    by (simp add: demoEpisode_def demoPressed_def gateEpisode_def avatar_eval)
  have e: "userTranscripts demoEpisode = [''I have five years of experience'']"
    "currentTranscriptRef demoEpisode = ''I have five years of experience''"
    "timeouts demoEpisode = []"
    by (simp_all add: demoEpisode_def demoPressed_def gateEpisode_def avatar_eval)
  note fa = finalize_action [where rs = "take 5 repeatedText" and m = False and r = r
      and ps = "[]" and pa = "mounted True" and tp = 0 and pb = demoPressed
      and es = gateEpisode and pe = demoEpisode]
  from fa [OF t1] m have a1: "sendTranscript ((mounted True)\<lparr>currentTranscriptRef := ''  I have five years ''\<rparr>)
     = (mounted True)\<lparr>lastSentTranscriptRef := ''I have five years'', currentTranscriptRef := [],
          userTranscripts := [''I have five years'']\<rparr>"
    by (simp add: mounted_def)
  from fa [OF t2] have a2: "sendTranscript ((mounted True)\<lparr>currentTranscriptRef := '' ok ''\<rparr>)
      = mounted True"
    by (simp add: mounted_def)
  from fa [OF t3] m have a3: "sendTranscript ((mounted True)\<lparr>currentTranscriptRef := ''I have'',
         lastSentTranscriptRef := ''I have''\<rparr>)
     = (mounted True)\<lparr>lastSentTranscriptRef := ''I have''\<rparr>"
    by (simp add: mounted_def)
  from fa [OF t4] have a4: "sendTranscript
       ((mounted True)\<lparr>currentTranscriptRef := ''I have'', isSpeakingRef := True\<rparr>)
     = (mounted True)\<lparr>currentTranscriptRef := ''I have'', isSpeakingRef := True,
          timeouts := [Timeout 1 1000 RetrySend], nextHandle := 2, sendTimeoutRef := Some 1\<rparr>"
    by (simp add: mounted_def armSendTimeout_def setTimeout_def)
  from fa [OF t1] r rm have a5: "last (userTranscripts r) = ''beta two''" by simp
  from fa [OF t1] ps m(6) press within later
  have a6: "length (userTranscripts demoEpisode) \<le> Suc (length (userTranscripts (mounted True)))"
    by simp
  from a1 a2 a3 a4 a5 a6 r rm press later e show ?thesis by simp
qed

end
